theory Spec2Isabelle
  imports Main "HOL-Library.Word"
begin

section \<open>Memory model\<close>

text \<open>
  A raw pointer is \<open>None\<close> (\<open>nullptr\<close>) or the address of a heap cell. Dereferencing
  a pointer to a released use count, or deleting an object that is not allocated, is
  undefined behaviour in C++; the model makes each a \<open>fault\<close>.
\<close>

type_synonym ptr = "nat option"

datatype fault =
    UseAfterFree    \<comment> \<open>read or write through a pointer to a released use count\<close>
  | InvalidDelete   \<comment> \<open>\<open>delete\<close> of a non-null pointer to nothing allocated\<close>
  | Misuse          \<comment> \<open>the client steps outside what the language or the contract allows\<close>

definition and_then :: "fault + 'a \<Rightarrow> ('a \<Rightarrow> fault + 'b) \<Rightarrow> fault + 'b" where
  "and_then r f = (case r of Inl e \<Rightarrow> Inl e | Inr x \<Rightarrow> f x)"

text \<open>
  The part of the heap that holds the managed objects. An object is named by its
  identity, which no later object takes again, so that \<open>destroyed\<close> counts the
  destructor runs of each object, as a destruction counter in a test object does.
\<close>

record objheap =
  objects :: "nat set"      \<comment> \<open>objects allocated and not yet destroyed\<close>
  destroyed :: "nat list"   \<comment> \<open>one entry for each destructor run, most recent first\<close>

text \<open>\<open>delete p\<close> on a managed object: nothing for \<open>nullptr\<close>, a destructor run otherwise.\<close>

definition delete_object :: "'a objheap_scheme \<Rightarrow> ptr \<Rightarrow> fault + 'a objheap_scheme" where
  "delete_object \<sigma> p =
     (case p of
        None \<Rightarrow> Inr \<sigma>
      | Some a \<Rightarrow>
          if a \<in> objects \<sigma>
          then Inr (\<sigma>\<lparr>objects := objects \<sigma> - {a}, destroyed := a # destroyed \<sigma>\<rparr>)
          else Inl InvalidDelete)"

text \<open>
  The client's \<open>new object_type(...)\<close>, whose result it hands to an owner at once, as
  \<open>make_unique\<close> and \<open>make_shared\<close> do; \<open>fresh_object\<close> says that the pointer is null
  or names an object that was never allocated before.
\<close>

definition new_object :: "'a objheap_scheme \<Rightarrow> ptr \<Rightarrow> 'a objheap_scheme" where
  "new_object \<sigma> p = (case p of None \<Rightarrow> \<sigma> | Some a \<Rightarrow> \<sigma>\<lparr>objects := insert a (objects \<sigma>)\<rparr>)"

definition fresh_object :: "'a objheap_scheme \<Rightarrow> ptr \<Rightarrow> bool" where
  "fresh_object \<sigma> p =
     (case p of None \<Rightarrow> True | Some a \<Rightarrow> a \<notin> objects \<sigma> \<and> a \<notin> set (destroyed \<sigma>))"


section \<open>unique_ptr\<close>

record unique_ptr =
  m_object :: ptr

text \<open>
  The \<open>unique_ptr\<close> instances of a program, by identity: \<open>uinsts\<close> holds the member of
  each.
\<close>

record uheap = objheap +
  uinsts :: "nat \<Rightarrow> unique_ptr"

text \<open>\<open>unique_ptr()\<close>\<close>

definition unique_ptr_default :: "uheap \<Rightarrow> nat \<Rightarrow> uheap" where
  "unique_ptr_default \<sigma> this = \<sigma>\<lparr>uinsts := (uinsts \<sigma>)(this := \<lparr>m_object = None\<rparr>)\<rparr>"

text \<open>\<open>unique_ptr(object_type* pointer)\<close>\<close>

definition unique_ptr_from :: "uheap \<Rightarrow> nat \<Rightarrow> ptr \<Rightarrow> uheap" where
  "unique_ptr_from \<sigma> this pointer = \<sigma>\<lparr>uinsts := (uinsts \<sigma>)(this := \<lparr>m_object = pointer\<rparr>)\<rparr>"

text \<open>\<open>unique_ptr(unique_ptr&& other)\<close>: the initialiser, then the body.\<close>

definition unique_ptr_move :: "uheap \<Rightarrow> nat \<Rightarrow> nat \<Rightarrow> uheap" where
  "unique_ptr_move \<sigma> this other =
     (let \<sigma>1 = \<sigma>\<lparr>uinsts := (uinsts \<sigma>)(this := \<lparr>m_object = m_object (uinsts \<sigma> other)\<rparr>)\<rparr>
      in \<sigma>1\<lparr>uinsts := (uinsts \<sigma>1)(other := \<lparr>m_object = None\<rparr>)\<rparr>)"

text \<open>\<open>~unique_ptr()\<close>\<close>

definition unique_ptr_destructor :: "uheap \<Rightarrow> nat \<Rightarrow> fault + uheap" where
  "unique_ptr_destructor \<sigma> this = delete_object \<sigma> (m_object (uinsts \<sigma> this))"

text \<open>\<open>unique_ptr::reset()\<close>\<close>

definition unique_ptr_reset :: "uheap \<Rightarrow> nat \<Rightarrow> fault + uheap" where
  "unique_ptr_reset \<sigma> this =
     and_then (delete_object \<sigma> (m_object (uinsts \<sigma> this)))
       (\<lambda>\<sigma>1. Inr (\<sigma>1\<lparr>uinsts := (uinsts \<sigma>1)(this := \<lparr>m_object = None\<rparr>)\<rparr>))"

text \<open>\<open>unique_ptr::reset(object_type* pointer)\<close>\<close>

definition unique_ptr_reset_to :: "uheap \<Rightarrow> nat \<Rightarrow> ptr \<Rightarrow> fault + uheap" where
  "unique_ptr_reset_to \<sigma> this pointer =
     and_then (delete_object \<sigma> (m_object (uinsts \<sigma> this)))
       (\<lambda>\<sigma>1. Inr (\<sigma>1\<lparr>uinsts := (uinsts \<sigma>1)(this := \<lparr>m_object = pointer\<rparr>)\<rparr>))"

text \<open>
  \<open>unique_ptr::operator=(unique_ptr&& other)\<close>. Each statement reads the store the
  statement before it left, so \<open>other\<close> may be \<open>this\<close>.
\<close>

definition unique_ptr_move_assign :: "uheap \<Rightarrow> nat \<Rightarrow> nat \<Rightarrow> fault + uheap" where
  "unique_ptr_move_assign \<sigma> this other =
     and_then (delete_object \<sigma> (m_object (uinsts \<sigma> this)))
       (\<lambda>\<sigma>1. let \<sigma>2 = \<sigma>1\<lparr>uinsts := (uinsts \<sigma>1)(this := \<lparr>m_object = m_object (uinsts \<sigma>1 other)\<rparr>)\<rparr>
             in Inr (\<sigma>2\<lparr>uinsts := (uinsts \<sigma>2)(other := \<lparr>m_object = None\<rparr>)\<rparr>))"

text \<open>\<open>unique_ptr::get()\<close> and \<open>unique_ptr::operator bool()\<close>\<close>

definition unique_ptr_get :: "uheap \<Rightarrow> nat \<Rightarrow> ptr" where
  "unique_ptr_get \<sigma> this = m_object (uinsts \<sigma> this)"

definition unique_ptr_bool :: "uheap \<Rightarrow> nat \<Rightarrow> bool" where
  "unique_ptr_bool \<sigma> this = (m_object (uinsts \<sigma> this) \<noteq> None)"

text \<open>
  Two heaps of the scenarios: nothing allocated; and \<open>unique_ptr\<close> 0 owning widget 0,
  as after \<open>make_unique\<close>.
\<close>

definition uinit :: uheap where
  "uinit = \<lparr>objects = {}, destroyed = [], uinsts = (\<lambda>_. \<lparr>m_object = None\<rparr>)\<rparr>"

definition widget_owner :: uheap where
  "widget_owner = unique_ptr_from (new_object uinit (Some 0)) 0 (Some 0)"


section \<open>shared_ptr\<close>

record shared_ptr =
  m_object :: ptr
  m_use_count :: ptr

text \<open>
  The \<open>shared_ptr\<close> instances of a program, by identity, and the use counts they point
  to. \<open>insts\<close> holds the two members of each instance, \<open>live\<close> the instances whose
  lifetime has begun and not ended, \<open>cells\<close> the allocated \<open>size_t\<close> use counts.
  \<open>size_t\<close> is an unsigned integer of the platform's width \<open>'w\<close>.
\<close>

record (overloaded) ('w::len) heap = objheap +
  insts :: "nat \<Rightarrow> shared_ptr"
  live :: "nat set"
  cells :: "nat \<rightharpoonup> 'w word"

text \<open>\<open>shared_ptr::increment_use_count()\<close>\<close>

definition increment_use_count :: "('w::len) heap \<Rightarrow> nat \<Rightarrow> fault + 'w heap" where
  "increment_use_count \<sigma> this =
     (case m_use_count (insts \<sigma> this) of
        None \<Rightarrow> Inr \<sigma>
      | Some c \<Rightarrow>
          (case cells \<sigma> c of
             None \<Rightarrow> Inl UseAfterFree
           | Some n \<Rightarrow> Inr (\<sigma>\<lparr>cells := (cells \<sigma>)(c \<mapsto> n + 1)\<rparr>)))"

text \<open>\<open>delete\<close> of a use count.\<close>

definition delete_cell :: "('w::len) heap \<Rightarrow> nat \<Rightarrow> fault + 'w heap" where
  "delete_cell \<sigma> c =
     (if cells \<sigma> c \<noteq> None then Inr (\<sigma>\<lparr>cells := (cells \<sigma>)(c := None)\<rparr>)
      else Inl InvalidDelete)"

text \<open>
  \<open>shared_ptr::decrement_use_count()\<close>: the pre-decrement writes the cell, and the two
  deletes run when the value written is zero.
\<close>

definition decrement_use_count :: "('w::len) heap \<Rightarrow> nat \<Rightarrow> fault + 'w heap" where
  "decrement_use_count \<sigma> this =
     (case m_use_count (insts \<sigma> this) of
        None \<Rightarrow> Inr \<sigma>
      | Some c \<Rightarrow>
          (case cells \<sigma> c of
             None \<Rightarrow> Inl UseAfterFree
           | Some n \<Rightarrow>
               let \<sigma>1 = \<sigma>\<lparr>cells := (cells \<sigma>)(c \<mapsto> n - 1)\<rparr>
               in if n - 1 = 0
                  then and_then (delete_object \<sigma>1 (m_object (insts \<sigma>1 this)))
                         (\<lambda>\<sigma>2. delete_cell \<sigma>2 c)
                  else Inr \<sigma>1))"

text \<open>\<open>shared_ptr()\<close>\<close>

definition shared_ptr_default :: "('w::len) heap \<Rightarrow> nat \<Rightarrow> 'w heap" where
  "shared_ptr_default \<sigma> this =
     \<sigma>\<lparr>insts := (insts \<sigma>)(this := \<lparr>m_object = None, m_use_count = None\<rparr>)\<rparr>"

text \<open>
  \<open>shared_ptr(object_type* pointer)\<close>; \<open>c\<close> is the address that \<open>new size_t(1)\<close>
  returns.
\<close>

definition shared_ptr_from :: "('w::len) heap \<Rightarrow> nat \<Rightarrow> ptr \<Rightarrow> nat \<Rightarrow> 'w heap" where
  "shared_ptr_from \<sigma> this pointer c =
     \<sigma>\<lparr>insts := (insts \<sigma>)(this := \<lparr>m_object = pointer, m_use_count = Some c\<rparr>),
       cells := (cells \<sigma>)(c \<mapsto> 1)\<rparr>"

text \<open>\<open>shared_ptr(const shared_ptr& other)\<close>\<close>

definition shared_ptr_copy :: "('w::len) heap \<Rightarrow> nat \<Rightarrow> nat \<Rightarrow> fault + 'w heap" where
  "shared_ptr_copy \<sigma> this other =
     increment_use_count
       (\<sigma>\<lparr>insts := (insts \<sigma>)(this :=
            \<lparr>m_object = m_object (insts \<sigma> other),
             m_use_count = m_use_count (insts \<sigma> other)\<rparr>)\<rparr>)
       this"

text \<open>\<open>shared_ptr(shared_ptr&& other)\<close>\<close>

definition shared_ptr_move :: "('w::len) heap \<Rightarrow> nat \<Rightarrow> nat \<Rightarrow> 'w heap" where
  "shared_ptr_move \<sigma> this other =
     (let \<sigma>1 = \<sigma>\<lparr>insts := (insts \<sigma>)(this :=
                  \<lparr>m_object = m_object (insts \<sigma> other),
                   m_use_count = m_use_count (insts \<sigma> other)\<rparr>)\<rparr>
      in \<sigma>1\<lparr>insts := (insts \<sigma>1)(other := \<lparr>m_object = None, m_use_count = None\<rparr>)\<rparr>)"

text \<open>\<open>~shared_ptr()\<close>\<close>

definition shared_ptr_destructor :: "('w::len) heap \<Rightarrow> nat \<Rightarrow> fault + 'w heap" where
  "shared_ptr_destructor \<sigma> this = decrement_use_count \<sigma> this"

text \<open>\<open>shared_ptr::reset()\<close>\<close>

definition reset :: "('w::len) heap \<Rightarrow> nat \<Rightarrow> fault + 'w heap" where
  "reset \<sigma> this =
     and_then (decrement_use_count \<sigma> this)
       (\<lambda>\<sigma>1. Inr (\<sigma>1\<lparr>insts := (insts \<sigma>1)(this := \<lparr>m_object = None, m_use_count = None\<rparr>)\<rparr>))"

text \<open>\<open>shared_ptr::reset(object_type* pointer)\<close>\<close>

definition reset_to :: "('w::len) heap \<Rightarrow> nat \<Rightarrow> ptr \<Rightarrow> nat \<Rightarrow> fault + 'w heap" where
  "reset_to \<sigma> this pointer c =
     and_then (decrement_use_count \<sigma> this)
       (\<lambda>\<sigma>1. Inr (\<sigma>1\<lparr>insts := (insts \<sigma>1)(this := \<lparr>m_object = pointer, m_use_count = Some c\<rparr>),
                     cells := (cells \<sigma>1)(c \<mapsto> 1)\<rparr>))"

text \<open>
  \<open>shared_ptr::operator=(const shared_ptr& other)\<close>. The members of \<open>other\<close> are read
  after the decrement, from the store as it then is, so \<open>other\<close> may be \<open>this\<close>.
\<close>

definition copy_assign :: "('w::len) heap \<Rightarrow> nat \<Rightarrow> nat \<Rightarrow> fault + 'w heap" where
  "copy_assign \<sigma> this other =
     and_then (decrement_use_count \<sigma> this)
       (\<lambda>\<sigma>1. increment_use_count
               (\<sigma>1\<lparr>insts := (insts \<sigma>1)(this :=
                     \<lparr>m_object = m_object (insts \<sigma>1 other),
                      m_use_count = m_use_count (insts \<sigma>1 other)\<rparr>)\<rparr>)
               this)"

text \<open>\<open>shared_ptr::operator=(shared_ptr&& other)\<close>\<close>

definition move_assign :: "('w::len) heap \<Rightarrow> nat \<Rightarrow> nat \<Rightarrow> fault + 'w heap" where
  "move_assign \<sigma> this other =
     and_then (decrement_use_count \<sigma> this)
       (\<lambda>\<sigma>1. let \<sigma>2 = \<sigma>1\<lparr>insts := (insts \<sigma>1)(this :=
                          \<lparr>m_object = m_object (insts \<sigma>1 other),
                           m_use_count = m_use_count (insts \<sigma>1 other)\<rparr>)\<rparr>
             in Inr (\<sigma>2\<lparr>insts := (insts \<sigma>2)(other :=
                          \<lparr>m_object = None, m_use_count = None\<rparr>)\<rparr>))"

text \<open>\<open>shared_ptr::get()\<close> and \<open>shared_ptr::operator bool()\<close>\<close>

definition get :: "('w::len) heap \<Rightarrow> nat \<Rightarrow> ptr" where
  "get \<sigma> this = m_object (insts \<sigma> this)"

definition operator_bool :: "('w::len) heap \<Rightarrow> nat \<Rightarrow> bool" where
  "operator_bool \<sigma> this = (m_object (insts \<sigma> this) \<noteq> None)"

text \<open>\<open>shared_ptr::use_count()\<close>\<close>

definition use_count :: "('w::len) heap \<Rightarrow> nat \<Rightarrow> fault + 'w word" where
  "use_count \<sigma> this =
     (case m_use_count (insts \<sigma> this) of
        Some c \<Rightarrow> (case cells \<sigma> c of None \<Rightarrow> Inl UseAfterFree | Some n \<Rightarrow> Inr n)
      | None \<Rightarrow> Inr 0)"

text \<open>\<open>shared_ptr::unique()\<close>\<close>

definition unique :: "('w::len) heap \<Rightarrow> nat \<Rightarrow> fault + bool" where
  "unique \<sigma> this =
     (case m_use_count (insts \<sigma> this) of
        Some c \<Rightarrow> (case cells \<sigma> c of None \<Rightarrow> Inl UseAfterFree | Some n \<Rightarrow> Inr (n = 1))
      | None \<Rightarrow> Inr False)"


section \<open>Client programs\<close>

text \<open>
  A client program is a sequence of operations on named \<open>shared_ptr\<close> instances. The
  arguments name the instance, then the other instance or the raw pointer; the last
  argument of \<open>ConstructFrom\<close> and \<open>ResetTo\<close> is the address the allocator returns for
  the new use count.
\<close>

datatype op =
    Construct nat
  | ConstructFrom nat ptr nat
  | CopyConstruct nat nat
  | MoveConstruct nat nat
  | CopyAssign nat nat
  | MoveAssign nat nat
  | Reset nat
  | ResetTo nat ptr nat
  | Destroy nat

text \<open>
  What the language and the caller's contract allow: a constructor runs on storage that
  holds no live instance, every other member on a live one (an assignment may name the
  same instance twice); a raw pointer handed over is null or a new object that no owner
  holds; the allocator returns an address that is not in use when it is called, which in
  \<open>reset(pointer)\<close> is after the decrement, so that it may be the address just freed;
  and there is storage for a new instance: each occupies memory, and \<open>size_t\<close> counts
  every byte of it.
\<close>

definition room :: "('w::len) heap \<Rightarrow> bool" where
  "room \<sigma> = (card (live \<sigma>) + 1 < 2 ^ LENGTH('w))"

fun permitted :: "('w::len) heap \<Rightarrow> op \<Rightarrow> bool" where
  "permitted \<sigma> (Construct v) = (v \<notin> live \<sigma> \<and> room \<sigma>)"
| "permitted \<sigma> (ConstructFrom v p c) =
     (v \<notin> live \<sigma> \<and> room \<sigma> \<and> fresh_object \<sigma> p \<and> cells \<sigma> c = None)"
| "permitted \<sigma> (CopyConstruct v w) = (v \<notin> live \<sigma> \<and> w \<in> live \<sigma> \<and> room \<sigma>)"
| "permitted \<sigma> (MoveConstruct v w) = (v \<notin> live \<sigma> \<and> w \<in> live \<sigma> \<and> room \<sigma>)"
| "permitted \<sigma> (CopyAssign v w) = (v \<in> live \<sigma> \<and> w \<in> live \<sigma>)"
| "permitted \<sigma> (MoveAssign v w) = (v \<in> live \<sigma> \<and> w \<in> live \<sigma>)"
| "permitted \<sigma> (Reset v) = (v \<in> live \<sigma>)"
| "permitted \<sigma> (ResetTo v p c) =
     (v \<in> live \<sigma> \<and> fresh_object \<sigma> p \<and>
      (case decrement_use_count \<sigma> v of Inl _ \<Rightarrow> True | Inr \<sigma>1 \<Rightarrow> cells \<sigma>1 c = None))"
| "permitted \<sigma> (Destroy v) = (v \<in> live \<sigma>)"

definition born :: "nat \<Rightarrow> ('w::len) heap \<Rightarrow> 'w heap" where
  "born v \<sigma> = \<sigma>\<lparr>live := insert v (live \<sigma>)\<rparr>"

definition dead :: "nat \<Rightarrow> ('w::len) heap \<Rightarrow> 'w heap" where
  "dead v \<sigma> = \<sigma>\<lparr>live := live \<sigma> - {v}\<rparr>"

fun exec :: "('w::len) heap \<Rightarrow> op \<Rightarrow> fault + 'w heap" where
  "exec \<sigma> (Construct v) = Inr (born v (shared_ptr_default \<sigma> v))"
| "exec \<sigma> (ConstructFrom v p c) = Inr (born v (shared_ptr_from (new_object \<sigma> p) v p c))"
| "exec \<sigma> (CopyConstruct v w) = and_then (shared_ptr_copy \<sigma> v w) (\<lambda>\<sigma>'. Inr (born v \<sigma>'))"
| "exec \<sigma> (MoveConstruct v w) = Inr (born v (shared_ptr_move \<sigma> v w))"
| "exec \<sigma> (CopyAssign v w) = copy_assign \<sigma> v w"
| "exec \<sigma> (MoveAssign v w) = move_assign \<sigma> v w"
| "exec \<sigma> (Reset v) = reset \<sigma> v"
| "exec \<sigma> (ResetTo v p c) = reset_to (new_object \<sigma> p) v p c"
| "exec \<sigma> (Destroy v) = and_then (shared_ptr_destructor \<sigma> v) (\<lambda>\<sigma>'. Inr (dead v \<sigma>'))"

definition step :: "('w::len) heap \<Rightarrow> op \<Rightarrow> fault + 'w heap" where
  "step \<sigma> x = (if permitted \<sigma> x then exec \<sigma> x else Inl Misuse)"

fun run :: "('w::len) heap \<Rightarrow> op list \<Rightarrow> fault + 'w heap" where
  "run \<sigma> [] = Inr \<sigma>"
| "run \<sigma> (x # xs) = and_then (step \<sigma> x) (\<lambda>\<sigma>'. run \<sigma>' xs)"

text \<open>
  The heap before the program starts: nothing allocated, no instance alive. A state is
  reachable when \<open>run init xs\<close> returns it for some client program \<open>xs\<close>.
\<close>

definition init :: "('w::len) heap" where
  "init = \<lparr>objects = {}, destroyed = [],
           insts = (\<lambda>_. \<lparr>m_object = None, m_use_count = None\<rparr>), live = {}, cells = Map.empty\<rparr>"


text \<open>
  Heaps of the scenarios, on a platform with a 16-bit \<open>size_t\<close>: \<open>shared_ptr\<close> 0
  made from a null pointer; \<open>shared_ptr\<close> 0 made from a new widget 0, its use count at
  address 0; and the same after \<open>shared_ptr\<close> 1 was copied from it.
\<close>

definition null_owner :: "16 heap" where
  "null_owner =
     \<lparr>objects = {}, destroyed = [],
      insts = (\<lambda>_. \<lparr>m_object = None, m_use_count = None\<rparr>)
                (0 := \<lparr>m_object = None, m_use_count = Some 0\<rparr>),
      live = {0}, cells = [0 \<mapsto> 1]\<rparr>"

definition sole_owner :: "16 heap" where
  "sole_owner =
     \<lparr>objects = {0}, destroyed = [],
      insts = (\<lambda>_. \<lparr>m_object = None, m_use_count = None\<rparr>)
                (0 := \<lparr>m_object = Some 0, m_use_count = Some 0\<rparr>),
      live = {0}, cells = [0 \<mapsto> 1]\<rparr>"

definition two_owners :: "16 heap" where
  "two_owners =
     \<lparr>objects = {0}, destroyed = [],
      insts = (\<lambda>_. \<lparr>m_object = None, m_use_count = None\<rparr>)
                (0 := \<lparr>m_object = Some 0, m_use_count = Some 0\<rparr>,
                 1 := \<lparr>m_object = Some 0, m_use_count = Some 0\<rparr>),
      live = {0, 1}, cells = [0 \<mapsto> 2]\<rparr>"

text \<open>\<open>shared_ptr\<close> 0 made from a new widget 0, and a default-constructed \<open>shared_ptr\<close> 1.\<close>

definition owner_and_empty :: "16 heap" where
  "owner_and_empty =
     \<lparr>objects = {0}, destroyed = [],
      insts = (\<lambda>_. \<lparr>m_object = None, m_use_count = None\<rparr>)
                (0 := \<lparr>m_object = Some 0, m_use_count = Some 0\<rparr>,
                 1 := \<lparr>m_object = None, m_use_count = None\<rparr>),
      live = {0, 1}, cells = [0 \<mapsto> 1]\<rparr>"


section \<open>Well-formed heaps\<close>

text \<open>The live instances that point to a given use count, and to a given object.\<close>

definition refs :: "('w::len) heap \<Rightarrow> nat \<Rightarrow> nat set" where
  "refs \<sigma> c = {v \<in> live \<sigma>. m_use_count (insts \<sigma> v) = Some c}"

definition owners :: "('w::len) heap \<Rightarrow> nat \<Rightarrow> nat set" where
  "owners \<sigma> a = {v \<in> live \<sigma>. m_object (insts \<sigma> v) = Some a}"

text \<open>
  The reference-counting discipline as a predicate on heaps: every allocated use count
  holds the number of live instances pointing to it, which is not zero; no live
  instance points to a released use count or a destroyed object; instances that share
  a use count share the object and conversely; every allocated object has an owner;
  and no object was destroyed twice.
\<close>

definition counted :: "('w::len) heap \<Rightarrow> bool" where
  "counted \<sigma> =
     (\<forall>c n. cells \<sigma> c = Some n \<longrightarrow> refs \<sigma> c \<noteq> {} \<and> unat n = card (refs \<sigma> c))"

definition no_dangling :: "('w::len) heap \<Rightarrow> bool" where
  "no_dangling \<sigma> =
     (\<forall>v \<in> live \<sigma>.
        (\<forall>c. m_use_count (insts \<sigma> v) = Some c \<longrightarrow> c \<in> dom (cells \<sigma>)) \<and>
        (\<forall>a. m_object (insts \<sigma> v) = Some a \<longrightarrow>
               a \<in> objects \<sigma> \<and> m_use_count (insts \<sigma> v) \<noteq> None))"

definition paired :: "('w::len) heap \<Rightarrow> bool" where
  "paired \<sigma> =
     (\<forall>v \<in> live \<sigma>. \<forall>w \<in> live \<sigma>.
        (\<forall>c. m_use_count (insts \<sigma> v) = Some c \<and> m_use_count (insts \<sigma> w) = Some c
           \<longrightarrow> m_object (insts \<sigma> v) = m_object (insts \<sigma> w)) \<and>
        (\<forall>a. m_object (insts \<sigma> v) = Some a \<and> m_object (insts \<sigma> w) = Some a
           \<longrightarrow> m_use_count (insts \<sigma> v) = m_use_count (insts \<sigma> w)))"

definition no_leak :: "('w::len) heap \<Rightarrow> bool" where
  "no_leak \<sigma> = (\<forall>a \<in> objects \<sigma>. owners \<sigma> a \<noteq> {})"

definition once :: "('w::len) heap \<Rightarrow> bool" where
  "once \<sigma> = (distinct (destroyed \<sigma>) \<and> set (destroyed \<sigma>) \<inter> objects \<sigma> = {})"

definition bounded :: "('w::len) heap \<Rightarrow> bool" where
  "bounded \<sigma> = (finite (live \<sigma>) \<and> card (live \<sigma>) < 2 ^ LENGTH('w))"

definition well_formed :: "('w::len) heap \<Rightarrow> bool" where
  "well_formed \<sigma> = (bounded \<sigma> \<and> counted \<sigma> \<and> no_dangling \<sigma> \<and> paired \<sigma> \<and> no_leak \<sigma> \<and> once \<sigma>)"


text \<open>
  A live instance that may make a copy-assignment to itself fail: it is the only one
  that points to its use count.
\<close>

fun doomed :: "('w::len) heap \<Rightarrow> op \<Rightarrow> bool" where
  "doomed \<sigma> (CopyAssign v w) = (v = w \<and> unique \<sigma> v = Inr True)"
| "doomed \<sigma> _ = False"


section \<open>Preservation of well-formedness\<close>

text \<open>
  The lemmas \<open>add_empty\<close> to \<open>remove_last\<close> speak of two heaps through their fields
  only: what a constructor adds and what the destructor removes. Every assignment and
  reset is the destructor followed by a constructor on the same storage, which gives
  \<open>exec_wf\<close>: a permitted operation other than the doomed one returns a well-formed
  heap.
\<close>

lemma and_then_Inr [simp]: "and_then (Inr x) f = f x"
  by (simp add: and_then_def)

lemma and_then_Inl [simp]: "and_then (Inl e) f = Inl e"
  by (simp add: and_then_def)

lemma wf_init: "well_formed (init :: ('w::len) heap)"
  by (simp add: well_formed_def bounded_def counted_def no_dangling_def paired_def no_leak_def once_def init_def)

lemma pairedI:
  assumes "\<And>v w c. v \<in> live \<sigma> \<Longrightarrow> w \<in> live \<sigma> \<Longrightarrow> m_use_count (insts \<sigma> v) = Some c \<Longrightarrow> m_use_count (insts \<sigma> w) = Some c
            \<Longrightarrow> m_object (insts \<sigma> v) = m_object (insts \<sigma> w)"
      and "\<And>v w a. v \<in> live \<sigma> \<Longrightarrow> w \<in> live \<sigma> \<Longrightarrow> m_object (insts \<sigma> v) = Some a \<Longrightarrow> m_object (insts \<sigma> w) = Some a
            \<Longrightarrow> m_use_count (insts \<sigma> v) = m_use_count (insts \<sigma> w)"
  shows "paired \<sigma>"
  unfolding paired_def using assms by blast

lemma paired_count:
  "paired \<sigma> \<Longrightarrow> v \<in> live \<sigma> \<Longrightarrow> w \<in> live \<sigma> \<Longrightarrow> m_use_count (insts \<sigma> v) = Some c \<Longrightarrow> m_use_count (insts \<sigma> w) = Some c
            \<Longrightarrow> m_object (insts \<sigma> v) = m_object (insts \<sigma> w)"
  unfolding paired_def by blast

lemma paired_object:
  "paired \<sigma> \<Longrightarrow> v \<in> live \<sigma> \<Longrightarrow> w \<in> live \<sigma> \<Longrightarrow> m_object (insts \<sigma> v) = Some a \<Longrightarrow> m_object (insts \<sigma> w) = Some a
            \<Longrightarrow> m_use_count (insts \<sigma> v) = m_use_count (insts \<sigma> w)"
  unfolding paired_def by blast

lemma no_dangling_count:
  "no_dangling \<sigma> \<Longrightarrow> v \<in> live \<sigma> \<Longrightarrow> m_use_count (insts \<sigma> v) = Some c \<Longrightarrow> \<exists>n. cells \<sigma> c = Some n"
  unfolding no_dangling_def by blast

lemma no_dangling_object:
  "no_dangling \<sigma> \<Longrightarrow> v \<in> live \<sigma> \<Longrightarrow> m_object (insts \<sigma> v) = Some a \<Longrightarrow> a \<in> objects \<sigma> \<and> (\<exists>c. m_use_count (insts \<sigma> v) = Some c)"
  unfolding no_dangling_def by blast

lemma no_dangling_empty:
  "no_dangling \<sigma> \<Longrightarrow> v \<in> live \<sigma> \<Longrightarrow> m_use_count (insts \<sigma> v) = None \<Longrightarrow> m_object (insts \<sigma> v) = None"
  unfolding no_dangling_def by (cases "m_object (insts \<sigma> v)") auto

lemma counted_cell:
  "counted \<sigma> \<Longrightarrow> cells \<sigma> c = Some n \<Longrightarrow> refs \<sigma> c \<noteq> {} \<and> unat n = card (refs \<sigma> c)"
  unfolding counted_def by blast

lemma refs_le_live: "finite (live \<sigma>) \<Longrightarrow> card (refs \<sigma> c) \<le> card (live \<sigma>)"
  by (rule card_mono) (auto simp: refs_def)

lemma refs_finite: "finite (live \<sigma>) \<Longrightarrow> finite (refs \<sigma> c)"
  by (simp add: refs_def)

lemma paired_via:
  assumes pa: "paired \<sigma>"
    and via: "\<And>x. x \<in> live \<tau> \<Longrightarrow>
               insts \<tau> x = \<lparr>m_object = None, m_use_count = None\<rparr> \<or> (\<exists>y \<in> live \<sigma>. insts \<tau> x = insts \<sigma> y)"
  shows "paired \<tau>"
proof (rule pairedI)
  fix x y k
  assume x: "x \<in> live \<tau>" and y: "y \<in> live \<tau>"
    and xk: "m_use_count (insts \<tau> x) = Some k" and yk: "m_use_count (insts \<tau> y) = Some k"
  obtain x' where x': "x' \<in> live \<sigma>" "insts \<tau> x = insts \<sigma> x'" using via[OF x] xk by auto
  obtain y' where y': "y' \<in> live \<sigma>" "insts \<tau> y = insts \<sigma> y'" using via[OF y] yk by auto
  show "m_object (insts \<tau> x) = m_object (insts \<tau> y)"
    using paired_count[OF pa x'(1) y'(1), of k] xk yk x'(2) y'(2) by simp
next
  fix x y a
  assume x: "x \<in> live \<tau>" and y: "y \<in> live \<tau>"
    and xa: "m_object (insts \<tau> x) = Some a" and ya: "m_object (insts \<tau> y) = Some a"
  obtain x' where x': "x' \<in> live \<sigma>" "insts \<tau> x = insts \<sigma> x'" using via[OF x] xa by auto
  obtain y' where y': "y' \<in> live \<sigma>" "insts \<tau> y = insts \<sigma> y'" using via[OF y] ya by auto
  show "m_use_count (insts \<tau> x) = m_use_count (insts \<tau> y)"
    using paired_object[OF pa x'(1) y'(1), of a] xa ya x'(2) y'(2) by simp
qed

text \<open>A new instance that holds nothing.\<close>

lemma add_empty:
  assumes wf: "well_formed \<sigma>" and v: "v \<notin> live \<sigma>" and room: "room \<sigma>"
    and l: "live \<tau> = insert v (live \<sigma>)"
    and i: "insts \<tau> = (insts \<sigma>)(v := \<lparr>m_object = None, m_use_count = None\<rparr>)"
    and c: "cells \<tau> = cells \<sigma>" and ob: "objects \<tau> = objects \<sigma>" and d: "destroyed \<tau> = destroyed \<sigma>"
  shows "well_formed \<tau>"
proof -
  have r: "refs \<tau> k = refs \<sigma> k" for k
    using v by (auto simp: refs_def l i)
  have o: "owners \<tau> a = owners \<sigma> a" for a
    using v by (auto simp: owners_def l i)
  have 1: "bounded \<tau>" using wf room v by (auto simp: well_formed_def bounded_def room_def l)
  have 2: "counted \<tau>" using wf by (simp add: well_formed_def counted_def r c)
  have 3: "no_dangling \<tau>" using wf v by (auto simp: well_formed_def no_dangling_def l i c ob)
  have 4: "paired \<tau>" 
  proof (rule pairedI)
    fix x y k assume "x \<in> live \<tau>" "y \<in> live \<tau>" "m_use_count (insts \<tau> x) = Some k" "m_use_count (insts \<tau> y) = Some k"
    then show "m_object (insts \<tau> x) = m_object (insts \<tau> y)" 
      using paired_count[of \<sigma> x y k] wf by (auto simp: well_formed_def l i split: if_splits)
  next
    fix x y k assume "x \<in> live \<tau>" "y \<in> live \<tau>" "m_object (insts \<tau> x) = Some k" "m_object (insts \<tau> y) = Some k"
    then show "m_use_count (insts \<tau> x) = m_use_count (insts \<tau> y)" 
      using paired_object[of \<sigma> x y k] wf by (auto simp: well_formed_def l i split: if_splits)
  qed
  have 5: "no_leak \<tau>" using wf by (simp add: well_formed_def no_leak_def o ob)
  have 6: "once \<tau>" using wf by (simp add: well_formed_def once_def ob d)
  show ?thesis using 1 2 3 4 5 6 by (simp add: well_formed_def)
qed

text \<open>A new instance with a use count of its own.\<close>

lemma add_fresh:
  assumes wf: "well_formed \<sigma>" and v: "v \<notin> live \<sigma>" and room: "room \<sigma>"
    and fc: "cells \<sigma> c = None" and fp: "fresh_object \<sigma> p"
    and l: "live \<tau> = insert v (live \<sigma>)"
    and i: "insts \<tau> = (insts \<sigma>)(v := \<lparr>m_object = p, m_use_count = Some c\<rparr>)"
    and ce: "cells \<tau> = (cells \<sigma>)(c \<mapsto> 1)" 
    and ob: "objects \<tau> = (case p of None \<Rightarrow> objects \<sigma> | Some a \<Rightarrow> insert a (objects \<sigma>))" 
    and d: "destroyed \<tau> = destroyed \<sigma>"
  shows "well_formed \<tau>"
proof -
  have nd: "no_dangling \<sigma>" and pa: "paired \<sigma>" and co: "counted \<sigma>" and nl: "no_leak \<sigma>" and on: "once \<sigma>"
    using wf by (simp_all add: well_formed_def)
  have nc: "m_use_count (insts \<sigma> x) \<noteq> Some c" if "x \<in> live \<sigma>" for x
    using no_dangling_count[OF nd that, of c] fc by auto
  have np: "m_object (insts \<sigma> x) \<noteq> Some a" if "x \<in> live \<sigma>" "p = Some a" for x a
    using no_dangling_object[OF nd that(1), of a] fp that(2) by (auto simp: fresh_object_def)
  have r: "refs \<tau> k = (if k = c then {v} else refs \<sigma> k)" for k
    using v nc by (auto simp: refs_def l i)
  have 1: "bounded \<tau>" using wf room v by (auto simp: well_formed_def bounded_def room_def l)
  have 2: "counted \<tau>" using co by (simp add: counted_def r ce)
  have 3: "no_dangling \<tau>" using nd v by (auto simp: no_dangling_def l i ce ob split: option.splits)
  have 4: "paired \<tau>" 
  proof (rule pairedI)
    fix x y k assume "x \<in> live \<tau>" "y \<in> live \<tau>" "m_use_count (insts \<tau> x) = Some k" "m_use_count (insts \<tau> y) = Some k"
    then show "m_object (insts \<tau> x) = m_object (insts \<tau> y)" 
      using paired_count[OF pa, of x y k] nc by (auto simp: l i split: if_splits)
  next
    fix x y k assume "x \<in> live \<tau>" "y \<in> live \<tau>" "m_object (insts \<tau> x) = Some k" "m_object (insts \<tau> y) = Some k"
    then show "m_use_count (insts \<tau> x) = m_use_count (insts \<tau> y)" 
      using paired_object[OF pa, of x y k] np by (auto simp: l i split: if_splits)
  qed
  have 5: "no_leak \<tau>" unfolding no_leak_def
  proof
    fix a assume a: "a \<in> objects \<tau>"
    show "owners \<tau> a \<noteq> {}"
    proof (cases "p = Some a")
      case True then show ?thesis by (auto simp: owners_def l i)
    next
      case False
      with a have "a \<in> objects \<sigma>" by (auto simp: ob split: option.splits)
      then obtain x where x: "x \<in> live \<sigma>" "m_object (insts \<sigma> x) = Some a" 
        using nl by (auto simp: no_leak_def owners_def)
      then have "x \<in> owners \<tau> a" using v by (auto simp: owners_def l i)
      then show ?thesis by blast
    qed
  qed
  have 6: "once \<tau>" using on fp by (auto simp: once_def ob d fresh_object_def split: option.splits)
  show ?thesis using 1 2 3 4 5 6 by (simp add: well_formed_def)
qed


text \<open>A new instance that shares the use count of a live one.\<close>

lemma add_copy:
  assumes wf: "well_formed \<sigma>" and v: "v \<notin> live \<sigma>" and room: "room \<sigma>"
    and w: "w \<in> live \<sigma>" and wc: "m_use_count (insts \<sigma> w) = Some c" and cn: "cells \<sigma> c = Some n"
    and l: "live \<tau> = insert v (live \<sigma>)"
    and i: "insts \<tau> = (insts \<sigma>)(v := insts \<sigma> w)"
    and ce: "cells \<tau> = (cells \<sigma>)(c \<mapsto> n + 1)" 
    and ob: "objects \<tau> = objects \<sigma>" 
    and d: "destroyed \<tau> = destroyed \<sigma>"
  shows "well_formed \<tau>"
proof -
  have nd: "no_dangling \<sigma>" and pa: "paired \<sigma>" and co: "counted \<sigma>" and nl: "no_leak \<sigma>" 
    and on: "once \<sigma>" and bo: "bounded \<sigma>"
    using wf by (simp_all add: well_formed_def)
  have fin: "finite (live \<sigma>)" using bo by (simp add: bounded_def)
  have r: "refs \<tau> k = (if k = c then insert v (refs \<sigma> c) else refs \<sigma> k)" for k
    using v wc by (auto simp: refs_def l i)
  have vr: "v \<notin> refs \<sigma> c" using v by (simp add: refs_def)
  have un: "unat n = card (refs \<sigma> c)" using counted_cell[OF co cn] by simp
  have "unat n + 1 < 2 ^ LENGTH('a)"
    using un refs_le_live[OF fin, of c] room by (simp add: room_def)
  then have un1: "unat (n + 1) = unat n + 1"
    by (simp add: unat_add_lem[THEN iffD1])
  have 1: "bounded \<tau>" using bo room v by (auto simp: bounded_def room_def l)
  have 2: "counted \<tau>" unfolding counted_def
  proof (intro allI impI)
    fix k m assume km: "cells \<tau> k = Some m"
    show "refs \<tau> k \<noteq> {} \<and> unat m = card (refs \<tau> k)"
    proof (cases "k = c")
      case True
      then have "m = n + 1" using km by (simp add: ce)
      then show ?thesis using True un un1 vr refs_finite[OF fin, of c] by (simp add: r)
    next
      case False
      then have "cells \<sigma> k = Some m" using km by (simp add: ce)
      then show ?thesis using counted_cell[OF co] False by (simp add: r)
    qed
  qed
  have 3: "no_dangling \<tau>" using nd v w by (auto simp: no_dangling_def l i ce ob)
  have 4: "paired \<tau>" 
  proof (rule pairedI)
    fix x y k assume "x \<in> live \<tau>" "y \<in> live \<tau>" "m_use_count (insts \<tau> x) = Some k" "m_use_count (insts \<tau> y) = Some k"
    then show "m_object (insts \<tau> x) = m_object (insts \<tau> y)" 
      using paired_count[OF pa, of x y k] paired_count[OF pa, of w y k] paired_count[OF pa, of x w k] w
      by (auto simp: l i split: if_splits)
  next
    fix x y k assume "x \<in> live \<tau>" "y \<in> live \<tau>" "m_object (insts \<tau> x) = Some k" "m_object (insts \<tau> y) = Some k"
    then show "m_use_count (insts \<tau> x) = m_use_count (insts \<tau> y)" 
      using paired_object[OF pa, of x y k] paired_object[OF pa, of w y k] paired_object[OF pa, of x w k] w
      by (auto simp: l i split: if_splits)
  qed
  have 5: "no_leak \<tau>" unfolding no_leak_def
  proof
    fix a assume a: "a \<in> objects \<tau>"
    then obtain x where x: "x \<in> live \<sigma>" "m_object (insts \<sigma> x) = Some a" 
      using nl by (auto simp: no_leak_def owners_def ob)
    then have "x \<in> owners \<tau> a" using v by (auto simp: owners_def l i)
    then show "owners \<tau> a \<noteq> {}" by blast
  qed
  have 6: "once \<tau>" using on by (simp add: once_def ob d)
  show ?thesis using 1 2 3 4 5 6 by (simp add: well_formed_def)
qed

text \<open>A new instance that takes over what a live one holds.\<close>

lemma add_move:
  assumes wf: "well_formed \<sigma>" and v: "v \<notin> live \<sigma>" and room: "room \<sigma>"
    and w: "w \<in> live \<sigma>"
    and l: "live \<tau> = insert v (live \<sigma>)"
    and i: "insts \<tau> = (insts \<sigma>)(v := insts \<sigma> w, w := \<lparr>m_object = None, m_use_count = None\<rparr>)"
    and ce: "cells \<tau> = cells \<sigma>" 
    and ob: "objects \<tau> = objects \<sigma>" 
    and d: "destroyed \<tau> = destroyed \<sigma>"
  shows "well_formed \<tau>"
proof -
  have nd: "no_dangling \<sigma>" and pa: "paired \<sigma>" and co: "counted \<sigma>" and nl: "no_leak \<sigma>" 
    and on: "once \<sigma>" and bo: "bounded \<sigma>"
    using wf by (simp_all add: well_formed_def)
  have fin: "finite (live \<sigma>)" using bo by (simp add: bounded_def)
  have vw: "v \<noteq> w" using v w by auto
  have r: "refs \<tau> k = (if m_use_count (insts \<sigma> w) = Some k then insert v (refs \<sigma> k - {w}) else refs \<sigma> k)" for k
    using v w vw by (auto simp: refs_def l i)
  have o: "owners \<tau> a = (if m_object (insts \<sigma> w) = Some a then insert v (owners \<sigma> a - {w}) else owners \<sigma> a)" for a
    using v w vw by (auto simp: owners_def l i)
  have 1: "bounded \<tau>" using bo room v by (auto simp: bounded_def room_def l)
  have 2: "counted \<tau>" unfolding counted_def
  proof (intro allI impI)
    fix k m assume "cells \<tau> k = Some m"
    then have km: "cells \<sigma> k = Some m" by (simp add: ce)
    note old = counted_cell[OF co km]
    show "refs \<tau> k \<noteq> {} \<and> unat m = card (refs \<tau> k)"
    proof (cases "m_use_count (insts \<sigma> w) = Some k")
      case True
      then have wr: "w \<in> refs \<sigma> k" using w by (simp add: refs_def)
      have vr: "v \<notin> refs \<sigma> k - {w}" using v by (simp add: refs_def)
      have "card (insert v (refs \<sigma> k - {w})) = card (refs \<sigma> k)"
        using vr refs_finite[OF fin, of k] card_Suc_Diff1[OF refs_finite[OF fin, of k] wr] by simp
      then show ?thesis using True old by (simp add: r)
    next
      case False
      then show ?thesis using old by (simp add: r)
    qed
  qed
  have 3: "no_dangling \<tau>" using nd v w vw by (auto simp: no_dangling_def l i ce ob)
  have 4: "paired \<tau>"
  proof (rule paired_via[OF pa])
    fix x assume "x \<in> live \<tau>"
    then show "insts \<tau> x = \<lparr>m_object = None, m_use_count = None\<rparr> \<or> (\<exists>y \<in> live \<sigma>. insts \<tau> x = insts \<sigma> y)"
      using w by (auto simp: l i)
  qed
  have 5: "no_leak \<tau>" unfolding no_leak_def
  proof
    fix a assume a: "a \<in> objects \<tau>"
    then have "owners \<sigma> a \<noteq> {}" using nl by (simp add: no_leak_def ob)
    then show "owners \<tau> a \<noteq> {}" by (auto simp: o)
  qed
  have 6: "once \<tau>" using on by (simp add: once_def ob d)
  show ?thesis using 1 2 3 4 5 6 by (simp add: well_formed_def)
qed


text \<open>The end of an instance that holds nothing.\<close>

lemma remove_unreferenced:
  assumes wf: "well_formed \<sigma>" and v: "v \<in> live \<sigma>" and vc: "m_use_count (insts \<sigma> v) = None"
    and l: "live \<tau> = live \<sigma> - {v}" and i: "insts \<tau> = insts \<sigma>" and ce: "cells \<tau> = cells \<sigma>"
    and ob: "objects \<tau> = objects \<sigma>" and d: "destroyed \<tau> = destroyed \<sigma>"
  shows "well_formed \<tau>"
proof -
  have nd: "no_dangling \<sigma>" and pa: "paired \<sigma>" and co: "counted \<sigma>" and nl: "no_leak \<sigma>" 
    and on: "once \<sigma>" and bo: "bounded \<sigma>"
    using wf by (simp_all add: well_formed_def)
  have vo: "m_object (insts \<sigma> v) = None" by (rule no_dangling_empty[OF nd v vc])
  have r: "refs \<tau> k = refs \<sigma> k" for k
    using vc by (auto simp: refs_def l i)
  have o: "owners \<tau> a = owners \<sigma> a" for a
    using vo by (auto simp: owners_def l i)
  have "card (live \<sigma> - {v}) \<le> card (live \<sigma>)" using bo by (auto simp: bounded_def intro: card_mono)
  then have 1: "bounded \<tau>" using bo by (auto simp: bounded_def l)
  have 2: "counted \<tau>" using co by (simp add: counted_def r ce)
  have 3: "no_dangling \<tau>" using nd by (auto simp: no_dangling_def l i ce ob)
  have 4: "paired \<tau>" using pa by (auto simp: paired_def l i)
  have 5: "no_leak \<tau>" using nl by (simp add: no_leak_def o ob)
  have 6: "once \<tau>" using on by (simp add: once_def ob d)
  show ?thesis using 1 2 3 4 5 6 by (simp add: well_formed_def)
qed

text \<open>The end of an instance whose use count others share.\<close>

lemma remove_shared:
  assumes wf: "well_formed \<sigma>" and v: "v \<in> live \<sigma>" and vc: "m_use_count (insts \<sigma> v) = Some c"
    and cn: "cells \<sigma> c = Some n" and n1: "n \<noteq> 1"
    and l: "live \<tau> = live \<sigma> - {v}" and i: "insts \<tau> = insts \<sigma>" 
    and ce: "cells \<tau> = (cells \<sigma>)(c \<mapsto> n - 1)"
    and ob: "objects \<tau> = objects \<sigma>" and d: "destroyed \<tau> = destroyed \<sigma>"
  shows "well_formed \<tau>"
proof -
  have nd: "no_dangling \<sigma>" and pa: "paired \<sigma>" and co: "counted \<sigma>" and nl: "no_leak \<sigma>" 
    and on: "once \<sigma>" and bo: "bounded \<sigma>"
    using wf by (simp_all add: well_formed_def)
  have fin: "finite (live \<sigma>)" using bo by (simp add: bounded_def)
  have finr: "finite (refs \<sigma> c)" by (rule refs_finite[OF fin])
  have vr: "v \<in> refs \<sigma> c" using v vc by (simp add: refs_def)
  have un: "unat n = card (refs \<sigma> c)" using counted_cell[OF co cn] by simp
  have "card (refs \<sigma> c) \<noteq> 0" using vr finr by auto
  moreover have "unat n \<noteq> 1" using n1 by (simp add: word_unat_eq_iff)
  ultimately have two: "2 \<le> card (refs \<sigma> c)" using un by arith
  have n0: "n \<noteq> 0" using un two by auto
  have un1: "unat (n - 1) = card (refs \<sigma> c) - 1" using unat_minus_one[OF n0] un by simp
  have r: "refs \<tau> k = refs \<sigma> k - {v}" for k
    by (auto simp: refs_def l i)
  have rk: "refs \<sigma> k - {v} = refs \<sigma> k" if "k \<noteq> c" for k
    using vc that by (auto simp: refs_def)
  have cr: "card (refs \<sigma> c - {v}) = card (refs \<sigma> c) - 1" using vr finr by simp
  obtain y where y: "y \<in> refs \<sigma> c" "y \<noteq> v"
  proof -
    have "card (refs \<sigma> c - {v}) \<noteq> 0" using cr two by arith
    then have "refs \<sigma> c - {v} \<noteq> {}" by (metis card.empty)
    then show ?thesis using that by blast
  qed
  have "card (live \<sigma> - {v}) \<le> card (live \<sigma>)" using fin by (auto intro: card_mono)
  then have 1: "bounded \<tau>" using bo by (auto simp: bounded_def l)
  have 2: "counted \<tau>" unfolding counted_def
  proof (intro allI impI)
    fix k m assume km: "cells \<tau> k = Some m"
    show "refs \<tau> k \<noteq> {} \<and> unat m = card (refs \<tau> k)"
    proof (cases "k = c")
      case True
      then have "m = n - 1" using km by (simp add: ce)
      then show ?thesis using True un1 cr y by (auto simp: r)
    next
      case False
      then have "cells \<sigma> k = Some m" using km by (simp add: ce)
      then show ?thesis using counted_cell[OF co] False by (simp add: r rk)
    qed
  qed
  have 3: "no_dangling \<tau>" using nd by (auto simp: no_dangling_def l i ce ob)
  have 4: "paired \<tau>" using pa by (auto simp: paired_def l i)
  have 5: "no_leak \<tau>" unfolding no_leak_def
  proof
    fix a assume a: "a \<in> objects \<tau>"
    then obtain x where x: "x \<in> live \<sigma>" "m_object (insts \<sigma> x) = Some a" 
      using nl by (auto simp: no_leak_def owners_def ob)
    show "owners \<tau> a \<noteq> {}"
    proof (cases "x = v")
      case False then have "x \<in> owners \<tau> a" using x by (simp add: owners_def l i)
      then show ?thesis by blast
    next
      case True
      have "m_object (insts \<sigma> y) = m_object (insts \<sigma> v)"
        using paired_count[OF pa, of y v c] y v vc by (simp add: refs_def)
      then have "y \<in> owners \<tau> a" using y x True by (simp add: owners_def l i refs_def)
      then show ?thesis by blast
    qed
  qed
  have 6: "once \<tau>" using on by (simp add: once_def ob d)
  show ?thesis using 1 2 3 4 5 6 by (simp add: well_formed_def)
qed

text \<open>The end of the last instance that points to a use count.\<close>

lemma remove_last:
  assumes wf: "well_formed \<sigma>" and v: "v \<in> live \<sigma>" and vc: "m_use_count (insts \<sigma> v) = Some c"
    and cn: "cells \<sigma> c = Some 1"
    and l: "live \<tau> = live \<sigma> - {v}" and i: "insts \<tau> = insts \<sigma>" 
    and ce: "cells \<tau> = (cells \<sigma>)(c := None)"
    and ob: "objects \<tau> = objects \<sigma> - set_option (m_object (insts \<sigma> v))" 
    and d: "destroyed \<tau> = (case m_object (insts \<sigma> v) of None \<Rightarrow> destroyed \<sigma> | Some a \<Rightarrow> a # destroyed \<sigma>)"
  shows "well_formed \<tau>"
proof -
  have nd: "no_dangling \<sigma>" and pa: "paired \<sigma>" and co: "counted \<sigma>" and nl: "no_leak \<sigma>" 
    and on: "once \<sigma>" and bo: "bounded \<sigma>"
    using wf by (simp_all add: well_formed_def)
  have fin: "finite (live \<sigma>)" using bo by (simp add: bounded_def)
  have vr: "v \<in> refs \<sigma> c" using v vc by (simp add: refs_def)
  have "card (refs \<sigma> c) = 1" using counted_cell[OF co cn] by simp
  then obtain u where "refs \<sigma> c = {u}" by (auto simp: card_1_singleton_iff)
  then have sole: "refs \<sigma> c = {v}" using vr by auto
  have nc: "m_use_count (insts \<sigma> x) \<noteq> Some c" if "x \<in> live \<sigma>" "x \<noteq> v" for x
    using sole that by (auto simp: refs_def)
  have no: "m_object (insts \<sigma> x) \<noteq> Some a" if "x \<in> live \<sigma>" "x \<noteq> v" "m_object (insts \<sigma> v) = Some a" for x a
    using paired_object[OF pa that(1) v, of a] nc[OF that(1,2)] that(3) vc by auto
  have r: "refs \<tau> k = refs \<sigma> k" if "k \<noteq> c" for k
    using vc that by (auto simp: refs_def l i)
  have "card (live \<sigma> - {v}) \<le> card (live \<sigma>)" using fin by (auto intro: card_mono)
  then have 1: "bounded \<tau>" using bo by (auto simp: bounded_def l)
  have 2: "counted \<tau>" unfolding counted_def
  proof (intro allI impI)
    fix k m assume km: "cells \<tau> k = Some m"
    then have "k \<noteq> c" "cells \<sigma> k = Some m" by (auto simp: ce split: if_splits)
    then show "refs \<tau> k \<noteq> {} \<and> unat m = card (refs \<tau> k)"
      using counted_cell[OF co] by (simp add: r)
  qed
  have 3: "no_dangling \<tau>" unfolding no_dangling_def
  proof (intro ballI conjI allI impI)
    fix x k assume "x \<in> live \<tau>" "m_use_count (insts \<tau> x) = Some k"
    then show "k \<in> dom (cells \<tau>)" 
      using no_dangling_count[OF nd, of x k] nc[of x] by (auto simp: l i ce)
  next
    fix x a assume "x \<in> live \<tau>" "m_object (insts \<tau> x) = Some a"
    then show "a \<in> objects \<tau>" 
      using no_dangling_object[OF nd, of x a] no[of x a] by (auto simp: l i ob)
  next
    fix x a assume "x \<in> live \<tau>" "m_object (insts \<tau> x) = Some a"
    then show "m_use_count (insts \<tau> x) \<noteq> None" 
      using no_dangling_object[OF nd, of x a] by (auto simp: l i)
  qed
  have 4: "paired \<tau>" using pa by (auto simp: paired_def l i)
  have 5: "no_leak \<tau>" unfolding no_leak_def
  proof
    fix a assume a: "a \<in> objects \<tau>"
    then have "a \<in> objects \<sigma>" and nv: "m_object (insts \<sigma> v) \<noteq> Some a" by (auto simp: ob)
    then obtain x where x: "x \<in> live \<sigma>" "m_object (insts \<sigma> x) = Some a" 
      using nl by (auto simp: no_leak_def owners_def)
    then have "x \<noteq> v" using nv by auto
    then have "x \<in> owners \<tau> a" using x by (simp add: owners_def l i)
    then show "owners \<tau> a \<noteq> {}" by blast
  qed
  have 6: "once \<tau>" 
    using on no_dangling_object[OF nd v] by (auto simp: once_def ob d split: option.splits)
  show ?thesis using 1 2 3 4 5 6 by (simp add: well_formed_def)
qed




lemma well_formed_fields:
  assumes "well_formed \<sigma>" "live \<tau> = live \<sigma>" "insts \<tau> = insts \<sigma>" "cells \<tau> = cells \<sigma>"
    "objects \<tau> = objects \<sigma>" "destroyed \<tau> = destroyed \<sigma>"
  shows "well_formed \<tau>"
proof -
  have "well_formed \<tau> = well_formed \<sigma>"
    unfolding well_formed_def bounded_def counted_def no_dangling_def paired_def no_leak_def
      once_def refs_def owners_def
    by (simp only: assms(2-6))
  then show ?thesis using assms(1) by simp
qed

lemma live_dead [simp]: "live (dead v \<sigma>) = live \<sigma> - {v}"
  and insts_dead [simp]: "insts (dead v \<sigma>) = insts \<sigma>"
  and cells_dead [simp]: "cells (dead v \<sigma>) = cells \<sigma>"
  and objects_dead [simp]: "objects (dead v \<sigma>) = objects \<sigma>"
  and destroyed_dead [simp]: "destroyed (dead v \<sigma>) = destroyed \<sigma>"
  by (simp_all add: dead_def)

lemma live_born [simp]: "live (born v \<sigma>) = insert v (live \<sigma>)"
  and insts_born [simp]: "insts (born v \<sigma>) = insts \<sigma>"
  and cells_born [simp]: "cells (born v \<sigma>) = cells \<sigma>"
  and objects_born [simp]: "objects (born v \<sigma>) = objects \<sigma>"
  and destroyed_born [simp]: "destroyed (born v \<sigma>) = destroyed \<sigma>"
  by (simp_all add: born_def)

lemma objects_new_object:
  "objects (new_object \<sigma> p) = (case p of None \<Rightarrow> objects \<sigma> | Some a \<Rightarrow> insert a (objects \<sigma>))"
  by (simp add: new_object_def split: option.splits)

lemma new_object_frame [simp]:
  "destroyed (new_object \<sigma> p) = destroyed \<sigma>"
  "live (new_object \<sigma> p) = live \<sigma>"
  "insts (new_object \<sigma> p) = insts \<sigma>"
  "cells (new_object \<sigma> p) = cells \<sigma>"
  by (simp_all add: new_object_def split: option.splits)

text \<open>What the decrement does, case by case.\<close>

lemma decrement_none:
  "m_use_count (insts \<sigma> v) = None \<Longrightarrow> decrement_use_count \<sigma> v = Inr \<sigma>"
  by (simp add: decrement_use_count_def)

lemma decrement_shared:
  assumes "m_use_count (insts \<sigma> v) = Some c" "cells \<sigma> c = Some n" "n \<noteq> 1"
  shows "decrement_use_count \<sigma> v = Inr (\<sigma>\<lparr>cells := (cells \<sigma>)(c \<mapsto> n - 1)\<rparr>)"
  using assms by (simp add: decrement_use_count_def)

lemma decrement_last:
  assumes "m_use_count (insts \<sigma> v) = Some c" "cells \<sigma> c = Some 1"
    "set_option (m_object (insts \<sigma> v)) \<subseteq> objects \<sigma>"
  shows "\<exists>\<sigma>1. decrement_use_count \<sigma> v = Inr \<sigma>1 \<and> live \<sigma>1 = live \<sigma> \<and> insts \<sigma>1 = insts \<sigma>
           \<and> cells \<sigma>1 = (cells \<sigma>)(c := None)
           \<and> objects \<sigma>1 = objects \<sigma> - set_option (m_object (insts \<sigma> v))
           \<and> destroyed \<sigma>1 = (case m_object (insts \<sigma> v) of None \<Rightarrow> destroyed \<sigma>
                                 | Some a \<Rightarrow> a # destroyed \<sigma>)"
  using assms
  by (cases "m_object (insts \<sigma> v)")
     (simp_all add: decrement_use_count_def delete_object_def delete_cell_def)

text \<open>The destructor of a live instance returns, and leaves the rest well-formed.\<close>

lemma destructor_wf:
  assumes wf: "well_formed \<sigma>" and v: "v \<in> live \<sigma>"
  shows "\<exists>\<sigma>1. decrement_use_count \<sigma> v = Inr \<sigma>1 \<and> well_formed (dead v \<sigma>1)
           \<and> live \<sigma>1 = live \<sigma> \<and> insts \<sigma>1 = insts \<sigma>
           \<and> dom (cells \<sigma>1) \<subseteq> dom (cells \<sigma>) \<and> objects \<sigma>1 \<subseteq> objects \<sigma>
           \<and> set (destroyed \<sigma>1) \<subseteq> set (destroyed \<sigma>) \<union> objects \<sigma>"
proof (cases "m_use_count (insts \<sigma> v)")
  case None
  have "well_formed (dead v \<sigma>)"
    by (rule remove_unreferenced[OF wf v None]) simp_all
  then show ?thesis using decrement_none[OF None] by auto
next
  case (Some c)
  have nd: "no_dangling \<sigma>" using wf by (simp add: well_formed_def)
  obtain n where n: "cells \<sigma> c = Some n" using no_dangling_count[OF nd v Some] by blast
  show ?thesis
  proof (cases "n = 1")
    case False
    let ?\<sigma>1 = "\<sigma>\<lparr>cells := (cells \<sigma>)(c \<mapsto> n - 1)\<rparr>"
    have "well_formed (dead v ?\<sigma>1)"
      by (rule remove_shared[OF wf v Some n False]) simp_all
    then show ?thesis using decrement_shared[OF Some n False] n by auto
  next
    case True
    have sub: "set_option (m_object (insts \<sigma> v)) \<subseteq> objects \<sigma>"
      using no_dangling_object[OF nd v] by (cases "m_object (insts \<sigma> v)") auto
    obtain \<sigma>1 where s1: "decrement_use_count \<sigma> v = Inr \<sigma>1" "live \<sigma>1 = live \<sigma>" "insts \<sigma>1 = insts \<sigma>"
      "cells \<sigma>1 = (cells \<sigma>)(c := None)"
      "objects \<sigma>1 = objects \<sigma> - set_option (m_object (insts \<sigma> v))"
      "destroyed \<sigma>1 = (case m_object (insts \<sigma> v) of None \<Rightarrow> destroyed \<sigma> | Some a \<Rightarrow> a # destroyed \<sigma>)"
      using decrement_last[OF Some n[unfolded True] sub] by blast
    have "well_formed (dead v \<sigma>1)"
      by (rule remove_last[OF wf v Some n[unfolded True]]) (simp_all add: s1)
    moreover have "set (destroyed \<sigma>1) \<subseteq> set (destroyed \<sigma>) \<union> objects \<sigma>"
      using sub by (auto simp: s1 split: option.splits)
    ultimately show ?thesis using s1 by auto
  qed
qed


text \<open>A new object that no instance holds does not change what the decrement does.\<close>

lemma decrement_new_object:
  assumes "fresh_object \<sigma> p" "decrement_use_count \<sigma> v = Inr \<sigma>1"
  shows "\<exists>\<sigma>2. decrement_use_count (new_object \<sigma> p) v = Inr \<sigma>2 \<and> live \<sigma>2 = live \<sigma>1
           \<and> insts \<sigma>2 = insts \<sigma>1 \<and> cells \<sigma>2 = cells \<sigma>1 \<and> destroyed \<sigma>2 = destroyed \<sigma>1
           \<and> objects \<sigma>2 = objects (new_object \<sigma>1 p)"
  using assms
  by (auto simp: decrement_use_count_def delete_object_def delete_cell_def new_object_def
        fresh_object_def Let_def
      split: option.splits if_splits)

text \<open>Each assignment and reset is the destructor followed by a constructor on the same storage.\<close>

lemma copy_assign_eq:
  "copy_assign \<sigma> v w = and_then (decrement_use_count \<sigma> v) (\<lambda>\<sigma>1. shared_ptr_copy \<sigma>1 v w)"
  by (simp add: copy_assign_def shared_ptr_copy_def)

lemma move_assign_eq:
  "move_assign \<sigma> v w = and_then (decrement_use_count \<sigma> v) (\<lambda>\<sigma>1. Inr (shared_ptr_move \<sigma>1 v w))"
  by (simp add: move_assign_def shared_ptr_move_def)

lemma reset_eq:
  "reset \<sigma> v = and_then (decrement_use_count \<sigma> v) (\<lambda>\<sigma>1. Inr (shared_ptr_default \<sigma>1 v))"
  by (simp add: reset_def shared_ptr_default_def)

lemma reset_to_eq:
  "reset_to \<sigma> v p c = and_then (decrement_use_count \<sigma> v) (\<lambda>\<sigma>1. Inr (shared_ptr_from \<sigma>1 v p c))"
  by (simp add: reset_to_def shared_ptr_from_def)

lemma move_assign_self: "move_assign \<sigma> v v = reset \<sigma> v"
  by (simp add: move_assign_def reset_def)

text \<open>What the copy constructor does, case by case.\<close>

lemma shared_ptr_copy_alt:
  "shared_ptr_copy \<sigma> v w = increment_use_count (\<sigma>\<lparr>insts := (insts \<sigma>)(v := insts \<sigma> w)\<rparr>) v"
  by (cases "insts \<sigma> w") (simp add: shared_ptr_copy_def)

lemma shared_ptr_move_alt:
  "shared_ptr_move \<sigma> v w =
     \<sigma>\<lparr>insts := (insts \<sigma>)(v := insts \<sigma> w, w := \<lparr>m_object = None, m_use_count = None\<rparr>)\<rparr>"
  by (cases "insts \<sigma> w") (simp add: shared_ptr_move_def)

lemma copy_none:
  assumes "m_use_count (insts \<sigma> w) = None"
  shows "\<exists>\<sigma>'. shared_ptr_copy \<sigma> v w = Inr \<sigma>' \<and> live \<sigma>' = live \<sigma>
           \<and> insts \<sigma>' = (insts \<sigma>)(v := insts \<sigma> w) \<and> cells \<sigma>' = cells \<sigma>
           \<and> objects \<sigma>' = objects \<sigma> \<and> destroyed \<sigma>' = destroyed \<sigma>"
  using assms by (simp add: shared_ptr_copy_alt increment_use_count_def)

lemma copy_some:
  assumes "m_use_count (insts \<sigma> w) = Some c" "cells \<sigma> c = Some n"
  shows "\<exists>\<sigma>'. shared_ptr_copy \<sigma> v w = Inr \<sigma>' \<and> live \<sigma>' = live \<sigma>
           \<and> insts \<sigma>' = (insts \<sigma>)(v := insts \<sigma> w) \<and> cells \<sigma>' = (cells \<sigma>)(c \<mapsto> n + 1)
           \<and> objects \<sigma>' = objects \<sigma> \<and> destroyed \<sigma>' = destroyed \<sigma>"
  using assms by (simp add: shared_ptr_copy_alt increment_use_count_def)

lemma copy_wf:
  assumes wf: "well_formed \<sigma>0" and v: "v \<notin> live \<sigma>0" and room: "room \<sigma>0" and w: "w \<in> live \<sigma>0"
    and f: "insts \<sigma> = insts \<sigma>0" "cells \<sigma> = cells \<sigma>0" "objects \<sigma> = objects \<sigma>0"
           "destroyed \<sigma> = destroyed \<sigma>0"
  shows "\<exists>\<sigma>'. shared_ptr_copy \<sigma> v w = Inr \<sigma>' \<and> live \<sigma>' = live \<sigma> \<and>
           (\<forall>\<tau>. live \<tau> = insert v (live \<sigma>0) \<and> insts \<tau> = insts \<sigma>' \<and> cells \<tau> = cells \<sigma>' \<and>
                objects \<tau> = objects \<sigma>' \<and> destroyed \<tau> = destroyed \<sigma>' \<longrightarrow> well_formed \<tau>)"
proof (cases "m_use_count (insts \<sigma>0 w)")
  case None
  have nd: "no_dangling \<sigma>0" using wf by (simp add: well_formed_def)
  have e: "insts \<sigma>0 w = \<lparr>m_object = None, m_use_count = None\<rparr>"
    using no_dangling_empty[OF nd w None] None by (cases "insts \<sigma>0 w") simp
  from None obtain \<sigma>' where s: "shared_ptr_copy \<sigma> v w = Inr \<sigma>'" "live \<sigma>' = live \<sigma>"
    "insts \<sigma>' = (insts \<sigma>)(v := insts \<sigma> w)" "cells \<sigma>' = cells \<sigma>" "objects \<sigma>' = objects \<sigma>"
    "destroyed \<sigma>' = destroyed \<sigma>"
    using copy_none[of \<sigma> w v] f by auto
  have "well_formed \<tau>" if "live \<tau> = insert v (live \<sigma>0)" "insts \<tau> = insts \<sigma>'" "cells \<tau> = cells \<sigma>'"
    "objects \<tau> = objects \<sigma>'" "destroyed \<tau> = destroyed \<sigma>'" for \<tau>
    by (rule add_empty[OF wf v room]) (simp_all add: that s f e)
  then show ?thesis using s by blast
next
  case (Some c)
  have nd: "no_dangling \<sigma>0" using wf by (simp add: well_formed_def)
  obtain n where n: "cells \<sigma>0 c = Some n" using no_dangling_count[OF nd w Some] by blast
  obtain \<sigma>' where s: "shared_ptr_copy \<sigma> v w = Inr \<sigma>'" "live \<sigma>' = live \<sigma>"
    "insts \<sigma>' = (insts \<sigma>)(v := insts \<sigma> w)" "cells \<sigma>' = (cells \<sigma>)(c \<mapsto> n + 1)"
    "objects \<sigma>' = objects \<sigma>" "destroyed \<sigma>' = destroyed \<sigma>"
    using copy_some[of \<sigma> w c n v] Some n f by auto
  have "well_formed \<tau>" if "live \<tau> = insert v (live \<sigma>0)" "insts \<tau> = insts \<sigma>'" "cells \<tau> = cells \<sigma>'"
    "objects \<tau> = objects \<sigma>'" "destroyed \<tau> = destroyed \<sigma>'" for \<tau>
    by (rule add_copy[OF wf v room w Some n]) (simp_all add: that s f)
  then show ?thesis using s by blast
qed

lemma room_dead:
  assumes "bounded (\<sigma> :: ('w::len) heap)" "v \<in> live \<sigma>" "live (\<sigma>1 :: 'w heap) = live \<sigma>"
  shows "room (dead v \<sigma>1)"
proof -
  have "card (live \<sigma> - {v}) + 1 = card (live \<sigma>)"
    using card_Suc_Diff1[of "live \<sigma>" v] assms(1,2) by (simp add: bounded_def)
  then show ?thesis using assms by (simp add: room_def bounded_def)
qed

lemma unique_True:
  "unique \<sigma> v = Inr True \<longleftrightarrow> (\<exists>c. m_use_count (insts \<sigma> v) = Some c \<and> cells \<sigma> c = Some 1)"
  by (auto simp: unique_def split: option.splits)

text \<open>Every permitted operation but the doomed one returns and keeps the heap well-formed.\<close>

lemma exec_wf:
  assumes wf: "well_formed \<sigma>" and p: "permitted \<sigma> x" and ok: "\<not> doomed \<sigma> x"
  shows "\<exists>\<sigma>'. exec \<sigma> x = Inr \<sigma>' \<and> well_formed \<sigma>'"
proof -
  have bo: "bounded \<sigma>" and nd: "no_dangling \<sigma>" using wf by (simp_all add: well_formed_def)
  show ?thesis
  proof (cases x)
    case (Construct v)
    have "well_formed (born v (shared_ptr_default \<sigma> v))"
      by (rule add_empty[OF wf, of v]) (use p Construct in \<open>simp_all add: shared_ptr_default_def\<close>)
    then show ?thesis using Construct by simp
  next
    case (ConstructFrom v q c)
    have "well_formed (born v (shared_ptr_from (new_object \<sigma> q) v q c))"
      by (rule add_fresh[OF wf, of v c q])
         (use p ConstructFrom in \<open>simp_all add: shared_ptr_from_def objects_new_object\<close>)
    then show ?thesis using ConstructFrom by simp
  next
    case (CopyConstruct v w)
    then have pw: "v \<notin> live \<sigma>" "w \<in> live \<sigma>" "room \<sigma>" using p by simp_all
    obtain \<sigma>' where s: "shared_ptr_copy \<sigma> v w = Inr \<sigma>'" "live \<sigma>' = live \<sigma>"
      and t: "\<And>\<tau>. live \<tau> = insert v (live \<sigma>) \<and> insts \<tau> = insts \<sigma>' \<and> cells \<tau> = cells \<sigma>' \<and>
                objects \<tau> = objects \<sigma>' \<and> destroyed \<tau> = destroyed \<sigma>' \<Longrightarrow> well_formed \<tau>"
      using copy_wf[OF wf pw(1) pw(3) pw(2), of \<sigma>] by blast
    have "well_formed (born v \<sigma>')" by (rule t) (simp add: s)
    then show ?thesis using CopyConstruct s by simp
  next
    case (MoveConstruct v w)
    then have pw: "v \<notin> live \<sigma>" "w \<in> live \<sigma>" "room \<sigma>" using p by simp_all
    have "well_formed (born v (shared_ptr_move \<sigma> v w))"
      by (rule add_move[OF wf pw(1) pw(3) pw(2)]) (simp_all add: shared_ptr_move_alt)
    then show ?thesis using MoveConstruct by simp
  next
    case (Destroy v)
    then have v: "v \<in> live \<sigma>" using p by simp
    show ?thesis using destructor_wf[OF wf v] Destroy by (auto simp: shared_ptr_destructor_def)
  next
    case (Reset v)
    then have v: "v \<in> live \<sigma>" using p by simp
    obtain \<sigma>1 where s: "decrement_use_count \<sigma> v = Inr \<sigma>1" "well_formed (dead v \<sigma>1)"
      "live \<sigma>1 = live \<sigma>" "insts \<sigma>1 = insts \<sigma>"
      using destructor_wf[OF wf v] by blast
    have "well_formed (shared_ptr_default \<sigma>1 v)"
      by (rule add_empty[OF s(2), of v])
         (use v s room_dead[OF bo v s(3)] in \<open>auto simp: shared_ptr_default_def\<close>)
    then show ?thesis using Reset s by (simp add: reset_eq)
  next
    case (MoveAssign v w)
    then have v: "v \<in> live \<sigma>" and w: "w \<in> live \<sigma>" using p by simp_all
    obtain \<sigma>1 where s: "decrement_use_count \<sigma> v = Inr \<sigma>1" "well_formed (dead v \<sigma>1)"
      "live \<sigma>1 = live \<sigma>" "insts \<sigma>1 = insts \<sigma>"
      using destructor_wf[OF wf v] by blast
    show ?thesis
    proof (cases "w = v")
      case True
      have "well_formed (shared_ptr_default \<sigma>1 v)"
        by (rule add_empty[OF s(2), of v])
           (use v s room_dead[OF bo v s(3)] in \<open>auto simp: shared_ptr_default_def\<close>)
      then show ?thesis using MoveAssign True s by (simp add: move_assign_self reset_eq)
    next
      case False
      have "well_formed (shared_ptr_move \<sigma>1 v w)"
        by (rule add_move[OF s(2), of v w])
           (use v w False s room_dead[OF bo v s(3)] in \<open>auto simp: shared_ptr_move_alt\<close>)
      then show ?thesis using MoveAssign s by (simp add: move_assign_eq)
    qed
  next
    case (CopyAssign v w)
    then have v: "v \<in> live \<sigma>" and w: "w \<in> live \<sigma>" using p by simp_all
    show ?thesis
    proof (cases "w = v")
      case False
      obtain \<sigma>1 where s: "decrement_use_count \<sigma> v = Inr \<sigma>1" "well_formed (dead v \<sigma>1)"
        "live \<sigma>1 = live \<sigma>" "insts \<sigma>1 = insts \<sigma>"
        using destructor_wf[OF wf v] by blast
      have "\<exists>\<sigma>'. shared_ptr_copy \<sigma>1 v w = Inr \<sigma>' \<and> live \<sigma>' = live \<sigma>1 \<and>
           (\<forall>\<tau>. live \<tau> = insert v (live (dead v \<sigma>1)) \<and> insts \<tau> = insts \<sigma>' \<and> cells \<tau> = cells \<sigma>' \<and>
                objects \<tau> = objects \<sigma>' \<and> destroyed \<tau> = destroyed \<sigma>' \<longrightarrow> well_formed \<tau>)"
        by (rule copy_wf[OF s(2), of v w \<sigma>1])
           (use v w False s room_dead[OF bo v s(3)] in auto)
      then obtain \<sigma>' where c: "shared_ptr_copy \<sigma>1 v w = Inr \<sigma>'" "live \<sigma>' = live \<sigma>1"
        and t: "\<And>\<tau>. live \<tau> = insert v (live (dead v \<sigma>1)) \<and> insts \<tau> = insts \<sigma>' \<and> cells \<tau> = cells \<sigma>' \<and>
                objects \<tau> = objects \<sigma>' \<and> destroyed \<tau> = destroyed \<sigma>' \<Longrightarrow> well_formed \<tau>"
        by blast
      have "well_formed \<sigma>'" by (rule t) (use v s c in auto)
      then show ?thesis using CopyAssign s c by (simp add: copy_assign_eq)
    next
      case True
      show ?thesis
      proof (cases "m_use_count (insts \<sigma> v)")
        case None
        obtain \<sigma>' where c: "shared_ptr_copy \<sigma> v v = Inr \<sigma>'" "live \<sigma>' = live \<sigma>"
          "insts \<sigma>' = (insts \<sigma>)(v := insts \<sigma> v)" "cells \<sigma>' = cells \<sigma>" "objects \<sigma>' = objects \<sigma>"
          "destroyed \<sigma>' = destroyed \<sigma>"
          using copy_none[OF None, of v] by blast
        have "well_formed \<sigma>'" by (rule well_formed_fields[OF wf]) (simp_all add: c)
        then show ?thesis using CopyAssign True c by (simp add: copy_assign_eq decrement_none[OF None])
      next
        case (Some c)
        obtain n where n: "cells \<sigma> c = Some n" using no_dangling_count[OF nd v Some] by blast
        have n1: "n \<noteq> 1" using ok CopyAssign True Some n by (auto simp: unique_True)
        let ?\<sigma>1 = "\<sigma>\<lparr>cells := (cells \<sigma>)(c \<mapsto> n - 1)\<rparr>"
        obtain \<sigma>' where c: "shared_ptr_copy ?\<sigma>1 v v = Inr \<sigma>'" "live \<sigma>' = live ?\<sigma>1"
          "insts \<sigma>' = (insts ?\<sigma>1)(v := insts ?\<sigma>1 v)" "cells \<sigma>' = (cells ?\<sigma>1)(c \<mapsto> n - 1 + 1)"
          "objects \<sigma>' = objects ?\<sigma>1" "destroyed \<sigma>' = destroyed ?\<sigma>1"
          using copy_some[of ?\<sigma>1 v c "n - 1" v] Some by auto
        have "well_formed \<sigma>'" 
          by (rule well_formed_fields[OF wf]) (use n in \<open>simp_all add: c map_upd_triv\<close>)
        then show ?thesis using CopyAssign True c 
          by (simp add: copy_assign_eq decrement_shared[OF Some n n1])
      qed
    qed
  next
    case (ResetTo v q c)
    then have v: "v \<in> live \<sigma>" and fq: "fresh_object \<sigma> q" using p by simp_all
    obtain \<sigma>1 where s: "decrement_use_count \<sigma> v = Inr \<sigma>1" "well_formed (dead v \<sigma>1)"
      "live \<sigma>1 = live \<sigma>" "insts \<sigma>1 = insts \<sigma>" "dom (cells \<sigma>1) \<subseteq> dom (cells \<sigma>)" 
      "objects \<sigma>1 \<subseteq> objects \<sigma>" "set (destroyed \<sigma>1) \<subseteq> set (destroyed \<sigma>) \<union> objects \<sigma>"
      using destructor_wf[OF wf v] by blast
    have fc: "cells \<sigma>1 c = None" using p ResetTo s(1) by simp
    obtain \<sigma>2 where s2: "decrement_use_count (new_object \<sigma> q) v = Inr \<sigma>2" "live \<sigma>2 = live \<sigma>1"
      "insts \<sigma>2 = insts \<sigma>1" "cells \<sigma>2 = cells \<sigma>1" "destroyed \<sigma>2 = destroyed \<sigma>1"
      "objects \<sigma>2 = objects (new_object \<sigma>1 q)"
      using decrement_new_object[OF fq s(1)] by blast
    have "well_formed (shared_ptr_from \<sigma>2 v q c)"
      by (rule add_fresh[OF s(2), of v c q])
         (use v s s2 fq fc room_dead[OF bo v s(3)] in 
           \<open>auto simp: shared_ptr_from_def objects_new_object fresh_object_def split: option.splits\<close>)
    then show ?thesis using ResetTo s2 by (simp add: reset_to_eq)
  qed
qed


text \<open>The doomed operation faults.\<close>

lemma exec_doomed:
  assumes wf: "well_formed \<sigma>" and p: "permitted \<sigma> x" and d: "doomed \<sigma> x"
  shows "exec \<sigma> x = Inl UseAfterFree"
proof -
  obtain v where x: "x = CopyAssign v v" and u: "unique \<sigma> v = Inr True"
    using d by (cases x) auto
  obtain c where c: "m_use_count (insts \<sigma> v) = Some c" "cells \<sigma> c = Some 1"
    using u by (auto simp: unique_True)
  have v: "v \<in> live \<sigma>" using p x by simp
  have nd: "no_dangling \<sigma>" using wf by (simp add: well_formed_def)
  have sub: "set_option (m_object (insts \<sigma> v)) \<subseteq> objects \<sigma>"
    using no_dangling_object[OF nd v] by (cases "m_object (insts \<sigma> v)") auto
  obtain \<sigma>1 where s: "decrement_use_count \<sigma> v = Inr \<sigma>1" "insts \<sigma>1 = insts \<sigma>"
    "cells \<sigma>1 = (cells \<sigma>)(c := None)"
    using decrement_last[OF c sub] by blast
  have "shared_ptr_copy \<sigma>1 v v = Inl UseAfterFree"
    using c s by (simp add: shared_ptr_copy_alt increment_use_count_def)
  then show ?thesis using x s by (simp add: copy_assign_eq)
qed

lemma step_wf:
  assumes "well_formed \<sigma>" "step \<sigma> x = Inr \<sigma>'"
  shows "well_formed \<sigma>'"
proof -
  have p: "permitted \<sigma> x" using assms(2) by (auto simp: step_def split: if_splits)
  then have e: "exec \<sigma> x = Inr \<sigma>'" using assms(2) by (simp add: step_def)
  then have "\<not> doomed \<sigma> x" using exec_doomed[OF assms(1) p] by auto
  then show ?thesis using exec_wf[OF assms(1) p] e by auto
qed

lemma run_wf:
  "well_formed \<sigma> \<Longrightarrow> run \<sigma> xs = Inr \<sigma>' \<Longrightarrow> well_formed \<sigma>'"
proof (induction xs arbitrary: \<sigma>)
  case Nil
  then show ?case by simp
next
  case (Cons x xs)
  then obtain \<sigma>1 where "step \<sigma> x = Inr \<sigma>1" "run \<sigma>1 xs = Inr \<sigma>'"
    by (cases "step \<sigma> x") auto
  then show ?case using Cons.IH step_wf[OF Cons.prems(1)] by blast
qed

lemma reachable_wf: "run init xs = Inr \<sigma> \<Longrightarrow> well_formed \<sigma>"
  using run_wf[OF wf_init] by blast

lemma run_null_owner: "run init [ConstructFrom 0 None 0] = Inr null_owner"
  by (simp add: step_def room_def init_def fresh_object_def new_object_def shared_ptr_from_def
      born_def null_owner_def)

lemma run_sole_owner: "run init [ConstructFrom 0 (Some 0) 0] = Inr sole_owner"
  by (simp add: step_def room_def init_def fresh_object_def new_object_def shared_ptr_from_def
      born_def sole_owner_def)

lemma run_two_owners: "run init [ConstructFrom 0 (Some 0) 0, CopyConstruct 1 0] = Inr two_owners"
  by (auto simp: step_def room_def init_def fresh_object_def new_object_def shared_ptr_from_def
      shared_ptr_copy_def increment_use_count_def born_def two_owners_def)



lemma run_append: "run \<sigma> (xs @ ys) = and_then (run \<sigma> xs) (\<lambda>\<sigma>'. run \<sigma>' ys)"
proof (induction xs arbitrary: \<sigma>)
  case Nil
  show ?case by simp
next
  case (Cons x xs)
  show ?case by (cases "step \<sigma> x") (simp_all add: Cons.IH)
qed

lemma run_then:
  "run \<sigma> xs = Inr \<sigma>1 \<Longrightarrow> run \<sigma> (xs @ ys) = run \<sigma>1 ys"
  by (simp add: run_append)


lemma decrement_insts:
  "decrement_use_count \<sigma> v = Inr \<sigma>1 \<Longrightarrow> insts \<sigma>1 = insts \<sigma> \<and> live \<sigma>1 = live \<sigma>"
  by (auto simp: decrement_use_count_def delete_object_def delete_cell_def Let_def and_then_def
      split: option.splits if_splits sum.splits)

lemma aliases_not_unique:
  assumes wf: "well_formed \<sigma>" and v: "v \<in> live \<sigma>" and w: "w \<in> live \<sigma>" and vw: "v \<noteq> w"
    and eq: "m_use_count (insts \<sigma> v) = m_use_count (insts \<sigma> w)"
  shows "unique \<sigma> v = Inr False"
proof (cases "m_use_count (insts \<sigma> v)")
  case None
  then show ?thesis by (simp add: unique_def)
next
  case (Some c)
  have nd: "no_dangling \<sigma>" and co: "counted \<sigma>" and bo: "bounded \<sigma>"
    using wf by (simp_all add: well_formed_def)
  obtain n where n: "cells \<sigma> c = Some n" using no_dangling_count[OF nd v Some] by blast
  have fin: "finite (refs \<sigma> c)" using bo by (simp add: bounded_def refs_finite)
  have "{v, w} \<subseteq> refs \<sigma> c" using v w Some eq by (simp add: refs_def)
  then have "card {v, w} \<le> card (refs \<sigma> c)" using fin by (rule card_mono[rotated])
  then have "2 \<le> unat n" using vw counted_cell[OF co n] by simp
  then have "n \<noteq> 1" by auto
  then show ?thesis using Some n by (simp add: unique_def)
qed


lemma default_observed:
  "use_count (shared_ptr_default \<tau> u) u = Inr 0 \<and> \<not> operator_bool (shared_ptr_default \<tau> u) u \<and>
   cells (shared_ptr_default \<tau> u) = cells \<tau>"
  by (simp add: shared_ptr_default_def use_count_def operator_bool_def)

lemma copy_of_empty:
  assumes "insts \<sigma> w = \<lparr>m_object = None, m_use_count = None\<rparr>"
  shows "shared_ptr_copy \<sigma> d w = Inr (shared_ptr_default \<sigma> d)"
  using assms by (simp add: shared_ptr_copy_def increment_use_count_def shared_ptr_default_def)


lemma run_owner_and_empty:
  "run init [ConstructFrom 0 (Some 0) 0, Construct 1] = Inr owner_and_empty"
  by (auto simp: step_def room_def init_def fresh_object_def new_object_def shared_ptr_from_def
      shared_ptr_default_def born_def owner_and_empty_def)

lemma copy_frame:
  "shared_ptr_copy \<sigma> v w = Inr \<sigma>' \<Longrightarrow> live \<sigma>' = live \<sigma> \<and> insts \<sigma>' = (insts \<sigma>)(v := insts \<sigma> w)"
  by (auto simp: shared_ptr_copy_alt increment_use_count_def split: option.splits)

lemma unique_iff_use_count: "unique \<sigma> w = Inr True \<longleftrightarrow> use_count \<sigma> w = Inr 1"
  by (auto simp: unique_def use_count_def split: option.splits)

lemma copy_then_destroy:
  assumes wf: "well_formed \<sigma>" and w: "w \<in> live \<sigma>" and v: "v \<notin> live \<sigma>" and room: "room \<sigma>"
  shows "\<exists>\<sigma>1 \<sigma>2. exec \<sigma> (CopyConstruct v w) = Inr \<sigma>1 \<and> unique \<sigma>1 w = Inr False \<and>
           unique \<sigma>1 v = Inr False \<and> exec \<sigma>1 (Destroy v) = Inr \<sigma>2 \<and> unique \<sigma>2 w = unique \<sigma> w"
proof -
  have vw: "v \<noteq> w" using v w by auto
  have nd: "no_dangling \<sigma>" and co: "counted \<sigma>" using wf by (simp_all add: well_formed_def)
  obtain \<sigma>1 where s1: "exec \<sigma> (CopyConstruct v w) = Inr \<sigma>1" and wf1: "well_formed \<sigma>1"
    using exec_wf[OF wf, of "CopyConstruct v w"] v w room by auto
  obtain \<sigma>c where c: "shared_ptr_copy \<sigma> v w = Inr \<sigma>c" "\<sigma>1 = born v \<sigma>c"
    using s1 by (cases "shared_ptr_copy \<sigma> v w") auto
  have f1: "live \<sigma>1 = insert v (live \<sigma>)" "insts \<sigma>1 = (insts \<sigma>)(v := insts \<sigma> w)"
    using copy_frame[OF c(1)] c(2) by simp_all
  have eq: "m_use_count (insts \<sigma>1 v) = m_use_count (insts \<sigma>1 w)" using vw by (simp add: f1)
  have u1: "unique \<sigma>1 w = Inr False"
    by (rule aliases_not_unique[OF wf1]) (use f1 w vw eq in auto)
  have u2: "unique \<sigma>1 v = Inr False"
    by (rule aliases_not_unique[OF wf1]) (use f1 w vw eq in auto)
  have "\<exists>\<sigma>d. decrement_use_count \<sigma>1 v = Inr \<sigma>d \<and> unique (dead v \<sigma>d) w = unique \<sigma> w"
  proof (cases "m_use_count (insts \<sigma> w)")
    case None
    then have "decrement_use_count \<sigma>1 v = Inr \<sigma>1"
      by (intro decrement_none) (simp add: f1)
    moreover have "unique (dead v \<sigma>1) w = unique \<sigma> w"
      using None vw by (simp add: unique_def f1)
    ultimately show ?thesis by blast
  next
    case (Some k)
    obtain n where n: "cells \<sigma> k = Some n" using no_dangling_count[OF nd w Some] by blast
    have "w \<in> refs \<sigma> k" using w Some by (simp add: refs_def)
    then have "card (refs \<sigma> k) \<noteq> 0" using wf by (auto simp: well_formed_def bounded_def refs_finite)
    then have n0: "n \<noteq> 0" using counted_cell[OF co n] by auto
    obtain \<sigma>c' where c': "shared_ptr_copy \<sigma> v w = Inr \<sigma>c'" "cells \<sigma>c' = (cells \<sigma>)(k \<mapsto> n + 1)"
      using copy_some[OF Some n, of v] by blast
    then have ce: "cells \<sigma>1 = (cells \<sigma>)(k \<mapsto> n + 1)" using c by simp
    have vk: "m_use_count (insts \<sigma>1 v) = Some k" using Some by (simp add: f1)
    have "decrement_use_count \<sigma>1 v = Inr (\<sigma>1\<lparr>cells := (cells \<sigma>1)(k \<mapsto> n + 1 - 1)\<rparr>)"
      by (rule decrement_shared[OF vk]) (use n0 in \<open>simp_all add: ce\<close>)
    moreover have "unique (dead v (\<sigma>1\<lparr>cells := (cells \<sigma>1)(k \<mapsto> n + 1 - 1)\<rparr>)) w = unique \<sigma> w"
      using Some n vw by (simp add: unique_def f1)
    ultimately show ?thesis by blast
  qed
  then show ?thesis using s1 u1 u2 by (auto simp: shared_ptr_destructor_def)
qed

lemma copy_assign_not_unique:
  assumes wf: "well_formed \<sigma>" and w: "w \<in> live \<sigma>" and u: "u \<in> live \<sigma>" and uw: "u \<noteq> w"
  shows "\<exists>\<sigma>3. copy_assign \<sigma> u w = Inr \<sigma>3 \<and> unique \<sigma>3 w = Inr False \<and> unique \<sigma>3 u = Inr False"
proof -
  obtain \<sigma>3 where s3: "copy_assign \<sigma> u w = Inr \<sigma>3" and wf3: "well_formed \<sigma>3"
    using exec_wf[OF wf, of "CopyAssign u w"] u w uw by auto
  obtain \<sigma>a where a: "decrement_use_count \<sigma> u = Inr \<sigma>a" "shared_ptr_copy \<sigma>a u w = Inr \<sigma>3"
    using s3 by (cases "decrement_use_count \<sigma> u") (simp_all add: copy_assign_eq)
  have f: "live \<sigma>3 = live \<sigma>" "insts \<sigma>3 = (insts \<sigma>)(u := insts \<sigma> w)"
    using copy_frame[OF a(2)] decrement_insts[OF a(1)] by simp_all
  have eq: "m_use_count (insts \<sigma>3 u) = m_use_count (insts \<sigma>3 w)" using uw by (simp add: f)
  have "unique \<sigma>3 w = Inr False"
    by (rule aliases_not_unique[OF wf3]) (use f u w uw eq in auto)
  moreover have "unique \<sigma>3 u = Inr False"
    by (rule aliases_not_unique[OF wf3]) (use f u w uw eq in auto)
  ultimately show ?thesis using s3 by blast
qed


lemma decrement_cells:
  assumes wf: "well_formed \<sigma>" and v: "v \<in> live \<sigma>"
  shows "\<exists>\<sigma>1. decrement_use_count \<sigma> v = Inr \<sigma>1 \<and>
           (\<forall>c n. cells \<sigma> c = Some n \<longrightarrow>
              cells \<sigma>1 c = (if m_use_count (insts \<sigma> v) = Some c
                             then (if n = 1 then None else Some (n - 1)) else Some n))"
proof (cases "m_use_count (insts \<sigma> v)")
  case None
  then show ?thesis using decrement_none[OF None] by simp
next
  case (Some k)
  have nd: "no_dangling \<sigma>" using wf by (simp add: well_formed_def)
  obtain m where m: "cells \<sigma> k = Some m" using no_dangling_count[OF nd v Some] by blast
  show ?thesis
  proof (cases "m = 1")
    case False
    show ?thesis using decrement_shared[OF Some m False] Some m False by auto
  next
    case True
    have sub: "set_option (m_object (insts \<sigma> v)) \<subseteq> objects \<sigma>"
      using no_dangling_object[OF nd v] by (cases "m_object (insts \<sigma> v)") auto
    obtain \<sigma>1 where "decrement_use_count \<sigma> v = Inr \<sigma>1" "cells \<sigma>1 = (cells \<sigma>)(k := None)"
      using decrement_last[OF Some m[unfolded True] sub] by blast
    then show ?thesis using Some m True by auto
  qed
qed

lemma move_observed:
  "\<not> operator_bool (shared_ptr_move \<sigma> d w) w \<and> cells (shared_ptr_move \<sigma> d w) = cells \<sigma>"
  by (simp add: shared_ptr_move_alt operator_bool_def)


lemma copy_assign_self:
  assumes wf: "well_formed \<sigma>" and v: "v \<in> live \<sigma>" and nu: "unique \<sigma> v \<noteq> Inr True"
  shows "copy_assign \<sigma> v v = Inr \<sigma>"
proof (cases "m_use_count (insts \<sigma> v)")
  case None
  then show ?thesis
    by (simp add: copy_assign_eq decrement_none shared_ptr_copy_alt increment_use_count_def)
next
  case (Some c)
  have nd: "no_dangling \<sigma>" using wf by (simp add: well_formed_def)
  obtain n where n: "cells \<sigma> c = Some n" using no_dangling_count[OF nd v Some] by blast
  have n1: "n \<noteq> 1" using nu Some n by (auto simp: unique_True)
  have "(cells \<sigma>)(c \<mapsto> n) = cells \<sigma>" using n by (rule map_upd_triv)
  then show ?thesis
    using Some n
    by (simp add: copy_assign_eq decrement_shared[OF Some n n1] shared_ptr_copy_alt
        increment_use_count_def)
qed

lemma unique_ptr_move_assign_self:
  "unique_ptr_move_assign U u u =
     and_then (unique_ptr_destructor U u) (\<lambda>U1. Inr (unique_ptr_default U1 u))"
  by (simp add: unique_ptr_move_assign_def unique_ptr_destructor_def unique_ptr_default_def)


section \<open>Reachable states\<close>

text \<open>
  In every state a client program reaches, \<open>use_count()\<close> of a live instance with a use
  count returns the number of live instances that point to that use count.
\<close>

lemma reachable_count:
  assumes "run init xs = Inr \<sigma>" "v \<in> live \<sigma>" "m_use_count (insts \<sigma> v) = Some c"
  shows "\<exists>n. use_count \<sigma> v = Inr n \<and> unat n = card (refs \<sigma> c) \<and> 0 < unat n"
proof -
  have wf: "well_formed \<sigma>" by (rule reachable_wf[OF assms(1)])
  then have nd: "no_dangling \<sigma>" and co: "counted \<sigma>" and bo: "bounded \<sigma>"
    by (simp_all add: well_formed_def)
  obtain n where n: "cells \<sigma> c = Some n" using no_dangling_count[OF nd assms(2,3)] by blast
  have "v \<in> refs \<sigma> c" using assms(2,3) by (simp add: refs_def)
  then have "0 < card (refs \<sigma> c)"
    using bo by (auto simp: bounded_def refs_finite card_gt_0_iff)
  then show ?thesis using counted_cell[OF co n] n assms(3) by (simp add: use_count_def)
qed

text \<open>
  In every such state a use count is allocated exactly while a live instance points to
  it, an object is allocated exactly while a live instance points to it, and no object
  was destroyed twice or is both destroyed and allocated.
\<close>

lemma reachable_release:
  assumes "run init xs = Inr \<sigma>"
  shows "(c \<in> dom (cells \<sigma>) \<longleftrightarrow> refs \<sigma> c \<noteq> {}) \<and> (a \<in> objects \<sigma> \<longleftrightarrow> owners \<sigma> a \<noteq> {}) \<and>
         distinct (destroyed \<sigma>) \<and> set (destroyed \<sigma>) \<inter> objects \<sigma> = {}"
proof -
  have wf: "well_formed \<sigma>" by (rule reachable_wf[OF assms(1)])
  then have nd: "no_dangling \<sigma>" and co: "counted \<sigma>" and nl: "no_leak \<sigma>" and on: "once \<sigma>"
    by (simp_all add: well_formed_def)
  have 1: "c \<in> dom (cells \<sigma>) \<longleftrightarrow> refs \<sigma> c \<noteq> {}"
  proof
    assume "c \<in> dom (cells \<sigma>)"
    then show "refs \<sigma> c \<noteq> {}" using counted_cell[OF co] by auto
  next
    assume "refs \<sigma> c \<noteq> {}"
    then obtain v where "v \<in> live \<sigma>" "m_use_count (insts \<sigma> v) = Some c"
      by (auto simp: refs_def)
    then show "c \<in> dom (cells \<sigma>)" using no_dangling_count[OF nd] by blast
  qed
  have 2: "a \<in> objects \<sigma> \<longleftrightarrow> owners \<sigma> a \<noteq> {}"
  proof
    assume "a \<in> objects \<sigma>"
    then show "owners \<sigma> a \<noteq> {}" using nl by (simp add: no_leak_def)
  next
    assume "owners \<sigma> a \<noteq> {}"
    then obtain v where "v \<in> live \<sigma>" "m_object (insts \<sigma> v) = Some a"
      by (auto simp: owners_def)
    then show "a \<in> objects \<sigma>" using no_dangling_object[OF nd] by blast
  qed
  show ?thesis using 1 2 on by (simp add: once_def)
qed

text \<open>
  From such a state every permitted operation returns, but the doomed one, which
  faults.
\<close>

lemma reachable_step:
  assumes "run init xs = Inr \<sigma>" "permitted \<sigma> x"
  shows "(doomed \<sigma> x \<longrightarrow> step \<sigma> x = Inl UseAfterFree) \<and>
         (\<not> doomed \<sigma> x \<longrightarrow> (\<exists>\<sigma>'. step \<sigma> x = Inr \<sigma>' \<and> run init (xs @ [x]) = Inr \<sigma>'))"
proof -
  have wf: "well_formed \<sigma>" by (rule reachable_wf[OF assms(1)])
  have "run init (xs @ [x]) = step \<sigma> x"
    using run_then[OF assms(1), of "[x]"] by (cases "step \<sigma> x") simp_all
  then show ?thesis
    using exec_doomed[OF wf assms(2)] exec_wf[OF wf assms(2)] assms(2)
    by (auto simp: step_def)
qed


section \<open>The claims\<close>

text \<open>
  C1: the use count equals the number of live instances that point to the object, and
  object and use count are released when it reaches zero, once, and not before. The
  code breaks this where a \<open>shared_ptr\<close> that is the only owner of widget 0 is
  copy-assigned to itself: the decrement at the head of \<open>operator=\<close> destroys the
  widget and frees the use count while the instance is alive and points to both, and
  the increment that follows writes through the pointer to the freed use count.
\<close>

theorem self_copy_assign_releases_early:
  "run init [ConstructFrom 0 (Some 0) 0] = Inr sole_owner \<and>
   permitted sole_owner (CopyAssign 0 0) \<and>
   decrement_use_count sole_owner 0 =
     Inr (sole_owner\<lparr>objects := {}, destroyed := [0], cells := Map.empty\<rparr>) \<and>
   0 \<in> live sole_owner \<and> insts sole_owner 0 = \<lparr>m_object = Some 0, m_use_count = Some 0\<rparr> \<and>
   run (init :: 16 heap) [ConstructFrom 0 (Some 0) 0, CopyAssign 0 0] = Inl UseAfterFree"
proof -
  have 1: "decrement_use_count sole_owner 0 =
     Inr (sole_owner\<lparr>objects := {}, destroyed := [0], cells := Map.empty\<rparr>)"
    by (simp add: sole_owner_def decrement_use_count_def delete_object_def delete_cell_def)
  have 2: "step sole_owner (CopyAssign 0 0) = Inl UseAfterFree"
    by (simp add: step_def copy_assign_def 1 increment_use_count_def)
       (simp add: sole_owner_def)
  have 3: "run (init :: 16 heap) [ConstructFrom 0 (Some 0) 0, CopyAssign 0 0] = Inl UseAfterFree"
    using run_then[OF run_sole_owner, of "[CopyAssign 0 0]"] 2 by simp
  show ?thesis using run_sole_owner 1 3 by (simp add: sole_owner_def)
qed

text \<open>
  C2: an owner assigned to itself. A \<open>shared_ptr\<close> that is not the only one on its use
  count (it holds none, or the count is 2 or more) is left by a copy-assignment to
  itself as it was, and so is the whole heap. A move-assignment to itself, of a
  \<open>shared_ptr\<close> in a state a client program reaches or of a \<open>unique_ptr\<close> that holds
  null or an allocated object, releases once what the owner holds, as its destructor
  does, and leaves the owner as the default constructor builds it.
\<close>

theorem self_assignment:
  assumes "run init xs = Inr \<sigma>" "v \<in> live \<sigma>"
    and "set_option (unique_ptr.m_object (uinsts U u)) \<subseteq> objects U"
  shows "(unique \<sigma> v \<noteq> Inr True \<longrightarrow> copy_assign \<sigma> v v = Inr \<sigma>) \<and>
         (\<exists>\<sigma>1. shared_ptr_destructor \<sigma> v = Inr \<sigma>1 \<and>
               move_assign \<sigma> v v = Inr (shared_ptr_default \<sigma>1 v)) \<and>
         (\<exists>U1. unique_ptr_destructor U u = Inr U1 \<and>
               unique_ptr_move_assign U u u = Inr (unique_ptr_default U1 u))"
proof -
  have wf: "well_formed \<sigma>" by (rule reachable_wf[OF assms(1)])
  obtain \<sigma>1 where s: "decrement_use_count \<sigma> v = Inr \<sigma>1"
    using destructor_wf[OF wf assms(2)] by blast
  then have 2: "shared_ptr_destructor \<sigma> v = Inr \<sigma>1 \<and>
               move_assign \<sigma> v v = Inr (shared_ptr_default \<sigma>1 v)"
    by (simp add: shared_ptr_destructor_def move_assign_self reset_eq)
  obtain U1 where u: "unique_ptr_destructor U u = Inr U1"
    using assms(3)
    by (cases "unique_ptr.m_object (uinsts U u)")
       (simp_all add: unique_ptr_destructor_def delete_object_def)
  then have 3: "unique_ptr_move_assign U u u = Inr (unique_ptr_default U1 u)"
    by (simp add: unique_ptr_move_assign_self)
  show ?thesis using copy_assign_self[OF wf assms(2)] 2 u 3 by blast
qed

theorem self_assignment_witness:
  "run init [ConstructFrom 0 (Some 0) 0, CopyConstruct 1 0] = Inr two_owners \<and>
   0 \<in> live two_owners \<and>
   set_option (unique_ptr.m_object (uinsts widget_owner 0)) \<subseteq> objects widget_owner \<and>
   unique two_owners 0 \<noteq> Inr True \<and> copy_assign two_owners 0 0 = Inr two_owners \<and>
   (\<exists>\<sigma>1. shared_ptr_destructor two_owners 0 = Inr \<sigma>1 \<and>
         move_assign two_owners 0 0 = Inr (shared_ptr_default \<sigma>1 0)) \<and>
   (\<exists>U1. unique_ptr_destructor widget_owner 0 = Inr U1 \<and>
         unique_ptr_move_assign widget_owner 0 0 = Inr (unique_ptr_default U1 0))"
proof -
  have h: "0 \<in> live two_owners" by (simp add: two_owners_def)
  have g: "set_option (unique_ptr.m_object (uinsts widget_owner 0)) \<subseteq> objects widget_owner"
    by (simp add: widget_owner_def unique_ptr_from_def new_object_def uinit_def)
  have n: "unique two_owners 0 \<noteq> Inr True" by (simp add: two_owners_def unique_def)
  show ?thesis
    using self_assignment[OF run_two_owners h g] run_two_owners h g n by blast
qed

text \<open>
  C2, as stated, fails: the \<open>unique_ptr\<close> that owns widget 0, move-assigned to itself,
  destroys the widget and is empty; the \<open>shared_ptr\<close> that alone owns widget 0,
  move-assigned to itself, goes from a use count of 1 to none.
\<close>

theorem self_move_assign_gives_up_the_object:
  "unique_ptr_bool widget_owner 0 \<and>
   unique_ptr_move_assign widget_owner 0 0 =
     Inr (widget_owner\<lparr>objects := {}, destroyed := [0],
            uinsts := (uinsts widget_owner)(0 := \<lparr>unique_ptr.m_object = None\<rparr>)\<rparr>) \<and>
   \<not> unique_ptr_bool
       (widget_owner\<lparr>objects := {}, destroyed := [0],
          uinsts := (uinsts widget_owner)(0 := \<lparr>unique_ptr.m_object = None\<rparr>)\<rparr>) 0 \<and>
   use_count sole_owner 0 = Inr 1 \<and>
   move_assign sole_owner 0 0 =
     Inr (sole_owner\<lparr>objects := {}, destroyed := [0], cells := Map.empty,
            insts := (insts sole_owner)(0 := \<lparr>m_object = None, m_use_count = None\<rparr>)\<rparr>) \<and>
   use_count
     (sole_owner\<lparr>objects := {}, destroyed := [0], cells := Map.empty,
        insts := (insts sole_owner)(0 := \<lparr>m_object = None, m_use_count = None\<rparr>)\<rparr>) 0 = Inr 0"
  by (simp add: widget_owner_def unique_ptr_from_def new_object_def uinit_def unique_ptr_bool_def
      unique_ptr_move_assign_def delete_object_def sole_owner_def use_count_def move_assign_def
      decrement_use_count_def delete_cell_def)

text \<open>
  C3: in every state a client program reaches, a live \<open>shared_ptr\<close> with an object
  has a use count, and live instances with the same object have the same use count.
\<close>

theorem object_has_counter_and_aliases_share_it:
  assumes "run init xs = Inr \<sigma>" "v \<in> live \<sigma>" "w \<in> live \<sigma>"
  shows "(m_object (insts \<sigma> v) \<noteq> None \<longrightarrow> m_use_count (insts \<sigma> v) \<noteq> None) \<and>
         (m_object (insts \<sigma> v) \<noteq> None \<and> m_object (insts \<sigma> v) = m_object (insts \<sigma> w)
            \<longrightarrow> m_use_count (insts \<sigma> v) = m_use_count (insts \<sigma> w))"
proof -
  have wf: "well_formed \<sigma>" by (rule reachable_wf[OF assms(1)])
  then have nd: "no_dangling \<sigma>" and pa: "paired \<sigma>" by (simp_all add: well_formed_def)
  show ?thesis
  proof (cases "m_object (insts \<sigma> v)")
    case None
    then show ?thesis by simp
  next
    case (Some a)
    have "m_object (insts \<sigma> w) = Some a \<Longrightarrow> m_use_count (insts \<sigma> v) = m_use_count (insts \<sigma> w)"
      by (rule paired_object[OF pa assms(2,3) Some])
    then show ?thesis using no_dangling_object[OF nd assms(2) Some] Some by auto
  qed
qed

theorem object_has_counter_and_aliases_share_it_witness:
  "run init [ConstructFrom 0 (Some 0) 0, CopyConstruct 1 0] = Inr two_owners \<and>
   0 \<in> live two_owners \<and> 1 \<in> live two_owners \<and>
   m_object (insts two_owners 0) \<noteq> None \<and>
   m_object (insts two_owners 0) = m_object (insts two_owners 1) \<and>
   m_use_count (insts two_owners 0) \<noteq> None \<and>
   m_use_count (insts two_owners 0) = m_use_count (insts two_owners 1)"
proof -
  have l: "0 \<in> live two_owners" "1 \<in> live two_owners" by (simp_all add: two_owners_def)
  have o: "m_object (insts two_owners 0) \<noteq> None"
    "m_object (insts two_owners 0) = m_object (insts two_owners 1)"
    by (simp_all add: two_owners_def)
  show ?thesis
    using object_has_counter_and_aliases_share_it[OF run_two_owners l] run_two_owners l o
    by blast
qed

text \<open>
  C3, as stated, fails: a \<open>shared_ptr\<close> made from a null raw pointer is reachable, and
  has a use count and no object.
\<close>

theorem null_pointer_owner_has_counter_without_object:
  "run init [ConstructFrom 0 None 0] = Inr null_owner \<and> 0 \<in> live null_owner \<and>
   m_use_count (insts null_owner 0) = Some 0 \<and> m_object (insts null_owner 0) = None"
  using run_null_owner by (simp add: null_owner_def)

text \<open>
  C4: the release (decrement, and at zero destroy the object and free the use count)
  never runs twice for one use count, since an instance gives up its pointers as soon
  as it has released them. The code breaks this where the only owner of widget 0 is
  copy-assigned to itself: after the release inside the assignment the instance is not
  empty, it points to the destroyed widget and to the freed use count, and its
  destructor runs the release on that use count again.
\<close>

theorem self_copy_assign_releases_twice:
  "decrement_use_count sole_owner 0 =
     Inr (sole_owner\<lparr>objects := {}, destroyed := [0], cells := Map.empty\<rparr>) \<and>
   operator_bool (sole_owner\<lparr>objects := {}, destroyed := [0], cells := Map.empty\<rparr>) 0 \<and>
   m_use_count (insts (sole_owner\<lparr>objects := {}, destroyed := [0], cells := Map.empty\<rparr>) 0)
     = Some 0 \<and>
   shared_ptr_destructor (sole_owner\<lparr>objects := {}, destroyed := [0], cells := Map.empty\<rparr>) 0
     = Inl UseAfterFree \<and>
   run (init :: 16 heap) [ConstructFrom 0 (Some 0) 0, CopyAssign 0 0, Destroy 0]
     = Inl UseAfterFree"
proof -
  have 1: "decrement_use_count sole_owner 0 =
     Inr (sole_owner\<lparr>objects := {}, destroyed := [0], cells := Map.empty\<rparr>)"
    by (simp add: sole_owner_def decrement_use_count_def delete_object_def delete_cell_def)
  have 2: "step sole_owner (CopyAssign 0 0) = Inl UseAfterFree"
    by (simp add: step_def copy_assign_def 1 increment_use_count_def)
       (simp add: sole_owner_def)
  have 3: "run (init :: 16 heap) [ConstructFrom 0 (Some 0) 0, CopyAssign 0 0, Destroy 0]
     = Inl UseAfterFree"
    using run_then[OF run_sole_owner, of "[CopyAssign 0 0, Destroy 0]"] 2 by simp
  show ?thesis using 1 3
    by (simp add: sole_owner_def operator_bool_def shared_ptr_destructor_def
        decrement_use_count_def)
qed

text \<open>
  C5: after a move construction or a move assignment the source converts to false,
  for \<open>unique_ptr\<close> (the destination holding null or an allocated object) and for
  \<open>shared_ptr\<close> (in any state a client program reaches). The \<open>shared_ptr\<close> move
  constructor writes no use count. The \<open>shared_ptr\<close> move assignment leaves the use
  count of the source as it was unless the destination pointed to that same use count:
  then the release of the destination takes one off, and frees it at zero.
\<close>

theorem move_empties_the_source:
  assumes "run init xs = Inr \<sigma>" "v \<in> live \<sigma>" "w \<in> live \<sigma>"
    and "set_option (unique_ptr.m_object (uinsts U u)) \<subseteq> objects U"
  shows "\<not> unique_ptr_bool (unique_ptr_move U e t) t \<and>
         (\<exists>U'. unique_ptr_move_assign U u t = Inr U' \<and> \<not> unique_ptr_bool U' t) \<and>
         \<not> operator_bool (shared_ptr_move \<sigma> d w) w \<and>
         cells (shared_ptr_move \<sigma> d w) = cells \<sigma> \<and>
         (\<exists>\<sigma>'. move_assign \<sigma> v w = Inr \<sigma>' \<and> \<not> operator_bool \<sigma>' w \<and>
            (\<forall>c n. m_use_count (insts \<sigma> w) = Some c \<and> cells \<sigma> c = Some n \<longrightarrow>
               cells \<sigma>' c = (if m_use_count (insts \<sigma> v) = Some c
                              then (if n = 1 then None else Some (n - 1)) else Some n)))"
proof -
  have wf: "well_formed \<sigma>" by (rule reachable_wf[OF assms(1)])
  have 1: "\<not> unique_ptr_bool (unique_ptr_move U e t) t"
    by (simp add: unique_ptr_move_def unique_ptr_bool_def)
  have 2: "\<exists>U'. unique_ptr_move_assign U u t = Inr U' \<and> \<not> unique_ptr_bool U' t"
    using assms(4)
    by (cases "unique_ptr.m_object (uinsts U u)")
       (simp_all add: unique_ptr_move_assign_def delete_object_def unique_ptr_bool_def)
  obtain \<sigma>1 where s: "decrement_use_count \<sigma> v = Inr \<sigma>1"
    and c: "\<forall>c n. cells \<sigma> c = Some n \<longrightarrow>
              cells \<sigma>1 c = (if m_use_count (insts \<sigma> v) = Some c
                             then (if n = 1 then None else Some (n - 1)) else Some n)"
    using decrement_cells[OF wf assms(2)] by blast
  have 3: "move_assign \<sigma> v w = Inr (shared_ptr_move \<sigma>1 v w)"
    using s by (simp add: move_assign_eq)
  show ?thesis
    using 1 2 3 c move_observed[of \<sigma> d w] move_observed[of \<sigma>1 v w] by auto
qed

theorem move_empties_the_source_witness:
  "run init [ConstructFrom 0 (Some 0) 0, Construct 1] = Inr owner_and_empty \<and>
   1 \<in> live owner_and_empty \<and> 0 \<in> live owner_and_empty \<and>
   set_option (unique_ptr.m_object (uinsts widget_owner 1)) \<subseteq> objects widget_owner \<and>
   operator_bool owner_and_empty 0 \<and> unique_ptr_bool widget_owner 0 \<and>
   \<not> unique_ptr_bool (unique_ptr_move widget_owner 1 0) 0 \<and>
   (\<exists>U'. unique_ptr_move_assign widget_owner 1 0 = Inr U' \<and> \<not> unique_ptr_bool U' 0) \<and>
   \<not> operator_bool (shared_ptr_move owner_and_empty 2 0) 0 \<and>
   cells (shared_ptr_move owner_and_empty 2 0) = cells owner_and_empty \<and>
   m_use_count (insts owner_and_empty 0) = Some 0 \<and> cells owner_and_empty 0 = Some 1 \<and>
   (\<exists>\<sigma>'. move_assign owner_and_empty 1 0 = Inr \<sigma>' \<and> \<not> operator_bool \<sigma>' 0 \<and>
      cells \<sigma>' 0 = Some 1)"
proof -
  have h: "1 \<in> live owner_and_empty" "0 \<in> live owner_and_empty"
    by (simp_all add: owner_and_empty_def)
  have g: "set_option (unique_ptr.m_object (uinsts widget_owner 1)) \<subseteq> objects widget_owner"
    by (simp add: widget_owner_def unique_ptr_from_def new_object_def uinit_def)
  have b: "operator_bool owner_and_empty 0" "unique_ptr_bool widget_owner 0"
    by (simp_all add: owner_and_empty_def operator_bool_def widget_owner_def unique_ptr_bool_def
        unique_ptr_from_def new_object_def uinit_def)
  have k: "m_use_count (insts owner_and_empty 0) = Some 0" "cells owner_and_empty 0 = Some 1"
    "m_use_count (insts owner_and_empty 1) \<noteq> Some 0"
    by (simp_all add: owner_and_empty_def)
  note t = move_empties_the_source[where e = 1 and t = 0 and d = 2, OF run_owner_and_empty h g]
  have m: "\<exists>\<sigma>'. move_assign owner_and_empty 1 0 = Inr \<sigma>' \<and> \<not> operator_bool \<sigma>' 0 \<and>
      cells \<sigma>' 0 = Some 1"
    using t k by (metis (full_types))
  show ?thesis using run_owner_and_empty h g b k t m by blast
qed

text \<open>
  C5, as stated, fails: move-assigning between two \<open>shared_ptr\<close>s to the same widget
  takes the use count from 2 to 1.
\<close>

theorem move_assign_between_aliases_lowers_the_count:
  "run init [ConstructFrom 0 (Some 0) 0, CopyConstruct 1 0] = Inr two_owners \<and>
   operator_bool two_owners 1 \<and> use_count two_owners 1 = Inr 2 \<and>
   move_assign two_owners 0 1 =
     Inr (two_owners\<lparr>insts := (insts two_owners)(1 := \<lparr>m_object = None, m_use_count = None\<rparr>),
            cells := [0 \<mapsto> 1]\<rparr>) \<and>
   use_count (two_owners\<lparr>insts := (insts two_owners)(1 := \<lparr>m_object = None, m_use_count = None\<rparr>),
                cells := [0 \<mapsto> 1]\<rparr>) 0 = Inr 1"
proof -
  have "move_assign two_owners 0 1 =
     Inr (two_owners\<lparr>insts := (insts two_owners)(1 := \<lparr>m_object = None, m_use_count = None\<rparr>),
            cells := [0 \<mapsto> 1]\<rparr>)"
    by (simp add: two_owners_def move_assign_def decrement_use_count_def fun_upd_twist)
  then show ?thesis
    using run_two_owners by (simp add: two_owners_def operator_bool_def use_count_def)
qed

text \<open>
  C6: \<open>use_count()\<close> returns the value of the use count the instance points to, and 0
  when the instance holds none.
\<close>

theorem use_count_returns_counter:
  "(\<forall>c n. m_use_count (insts \<sigma> v) = Some c \<and> cells \<sigma> c = Some n \<longrightarrow> use_count \<sigma> v = Inr n) \<and>
   (m_use_count (insts \<sigma> v) = None \<longrightarrow> use_count \<sigma> v = Inr 0)"
  by (simp add: use_count_def)

theorem use_count_returns_counter_witness:
  "m_use_count (insts two_owners 1) = Some 0 \<and> cells two_owners 0 = Some 2 \<and>
   use_count two_owners 1 = Inr 2 \<and>
   m_use_count (insts owner_and_empty 1) = None \<and> use_count owner_and_empty 1 = Inr 0"
proof -
  have a: "m_use_count (insts two_owners 1) = Some 0 \<and> cells two_owners 0 = Some 2"
    by (simp add: two_owners_def)
  have b: "m_use_count (insts owner_and_empty 1) = None"
    by (simp add: owner_and_empty_def)
  show ?thesis
    using a b use_count_returns_counter[of two_owners 1]
      use_count_returns_counter[of owner_and_empty 1]
    by blast
qed

text \<open>
  C7: \<open>unique()\<close> returns true exactly when \<open>use_count()\<close> returns 1. It is true right
  after construction from a raw pointer. In any state a client program reaches, after a
  copy of a live instance is made, by the copy constructor or by copy assignment to
  another instance, \<open>unique()\<close> is false on the instance and on the copy; and once the
  copy is destroyed \<open>unique()\<close> on the instance is what it was before the copy.
\<close>

theorem unique_tracks_the_count:
  assumes "run init xs = Inr \<sigma>" "w \<in> live \<sigma>" "v \<notin> live \<sigma>" "room \<sigma>"
  shows "(unique \<sigma> w = Inr True \<longleftrightarrow> use_count \<sigma> w = Inr 1) \<and>
         unique (shared_ptr_from \<sigma> v p c) v = Inr True \<and>
         (\<exists>\<sigma>1 \<sigma>2. exec \<sigma> (CopyConstruct v w) = Inr \<sigma>1 \<and> unique \<sigma>1 w = Inr False \<and>
            unique \<sigma>1 v = Inr False \<and> exec \<sigma>1 (Destroy v) = Inr \<sigma>2 \<and>
            unique \<sigma>2 w = unique \<sigma> w) \<and>
         (\<forall>u \<in> live \<sigma>. u \<noteq> w \<longrightarrow>
            (\<exists>\<sigma>3. copy_assign \<sigma> u w = Inr \<sigma>3 \<and> unique \<sigma>3 w = Inr False \<and>
               unique \<sigma>3 u = Inr False))"
proof -
  have wf: "well_formed \<sigma>" by (rule reachable_wf[OF assms(1)])
  have "unique (shared_ptr_from \<sigma> v p c) v = Inr True"
    by (simp add: shared_ptr_from_def unique_def)
  then show ?thesis
    using unique_iff_use_count[of \<sigma> w] copy_then_destroy[OF wf assms(2,3,4)]
      copy_assign_not_unique[OF wf assms(2)]
    by blast
qed

theorem unique_tracks_the_count_witness:
  "run init [ConstructFrom 0 (Some 0) 0, Construct 1] = Inr owner_and_empty \<and>
   0 \<in> live owner_and_empty \<and> 2 \<notin> live owner_and_empty \<and> room owner_and_empty \<and>
   unique owner_and_empty 0 = Inr True \<and> use_count owner_and_empty 0 = Inr 1 \<and>
   (\<exists>\<sigma>1 \<sigma>2. exec owner_and_empty (CopyConstruct 2 0) = Inr \<sigma>1 \<and> unique \<sigma>1 0 = Inr False \<and>
      unique \<sigma>1 2 = Inr False \<and> exec \<sigma>1 (Destroy 2) = Inr \<sigma>2 \<and> unique \<sigma>2 0 = Inr True) \<and>
   1 \<in> live owner_and_empty \<and> (1::nat) \<noteq> 0 \<and>
   (\<exists>\<sigma>3. copy_assign owner_and_empty 1 0 = Inr \<sigma>3 \<and> unique \<sigma>3 0 = Inr False \<and>
      unique \<sigma>3 1 = Inr False)"
proof -
  have h: "0 \<in> live owner_and_empty" "2 \<notin> live owner_and_empty" "room owner_and_empty"
    by (simp_all add: owner_and_empty_def room_def)
  have l: "1 \<in> live owner_and_empty" "(1::nat) \<noteq> 0"
    by (simp_all add: owner_and_empty_def)
  have u: "unique owner_and_empty 0 = Inr True" "use_count owner_and_empty 0 = Inr 1"
    by (simp_all add: owner_and_empty_def unique_def use_count_def)
  note t = unique_tracks_the_count[OF run_owner_and_empty h]
  have a: "\<exists>\<sigma>1 \<sigma>2. exec owner_and_empty (CopyConstruct 2 0) = Inr \<sigma>1 \<and> unique \<sigma>1 0 = Inr False \<and>
      unique \<sigma>1 2 = Inr False \<and> exec \<sigma>1 (Destroy 2) = Inr \<sigma>2 \<and> unique \<sigma>2 0 = Inr True"
    using t u by metis
  have b: "\<exists>\<sigma>3. copy_assign owner_and_empty 1 0 = Inr \<sigma>3 \<and> unique \<sigma>3 0 = Inr False \<and>
      unique \<sigma>3 1 = Inr False"
    using t l by blast
  show ?thesis using run_owner_and_empty h l u a b by blast
qed

text \<open>
  C8: move-assigning \<open>unique_ptr\<close> \<open>w\<close> into a different \<open>unique_ptr\<close> \<open>v\<close> that
  is empty or owns an allocated object: the assignment is the destructor of \<open>v\<close>
  followed by the move constructor; the object \<open>v\<close> owned is destroyed, \<open>v\<close> gets
  the pointer \<open>w\<close> held, \<open>w\<close> becomes empty, and nothing else changes.
\<close>

theorem exclusive_move_assign:
  assumes "v \<noteq> w" "set_option (unique_ptr.m_object (uinsts \<sigma> v)) \<subseteq> objects \<sigma>"
  shows "unique_ptr_move_assign \<sigma> v w =
           and_then (unique_ptr_destructor \<sigma> v) (\<lambda>\<sigma>1. Inr (unique_ptr_move \<sigma>1 v w)) \<and>
         unique_ptr_move_assign \<sigma> v w =
           Inr (\<sigma>\<lparr>objects := objects \<sigma> - set_option (unique_ptr.m_object (uinsts \<sigma> v)),
                  destroyed := (case unique_ptr.m_object (uinsts \<sigma> v) of
                                  None \<Rightarrow> destroyed \<sigma> | Some a \<Rightarrow> a # destroyed \<sigma>),
                  uinsts := (uinsts \<sigma>)(v := uinsts \<sigma> w, w := \<lparr>unique_ptr.m_object = None\<rparr>)\<rparr>)"
proof (cases "unique_ptr.m_object (uinsts \<sigma> v)")
  case None
  then show ?thesis
    by (cases "uinsts \<sigma> w")
       (simp add: unique_ptr_move_assign_def unique_ptr_destructor_def unique_ptr_move_def
          delete_object_def)
next
  case (Some a)
  then show ?thesis using assms(2)
    by (cases "uinsts \<sigma> w")
       (simp add: unique_ptr_move_assign_def unique_ptr_destructor_def unique_ptr_move_def
          delete_object_def)
qed

theorem exclusive_move_assign_witness:
  "(0::nat) \<noteq> 1 \<and> set_option (unique_ptr.m_object (uinsts widget_owner 0)) \<subseteq> objects widget_owner \<and>
   unique_ptr_move_assign widget_owner 0 1 =
     Inr (widget_owner\<lparr>objects := {}, destroyed := [0],
            uinsts := (uinsts widget_owner)(0 := \<lparr>unique_ptr.m_object = None\<rparr>,
                                            1 := \<lparr>unique_ptr.m_object = None\<rparr>)\<rparr>)"
proof -
  have h: "(0::nat) \<noteq> 1"
    "set_option (unique_ptr.m_object (uinsts widget_owner 0)) \<subseteq> objects widget_owner"
    by (simp_all add: widget_owner_def unique_ptr_from_def new_object_def uinit_def)
  have r: "unique_ptr.m_object (uinsts widget_owner 0) = Some 0" "objects widget_owner = {0}"
    "destroyed widget_owner = []" "uinsts widget_owner (Suc 0) = \<lparr>unique_ptr.m_object = None\<rparr>"
    by (simp_all add: widget_owner_def unique_ptr_from_def new_object_def uinit_def)
  show ?thesis
    using exclusive_move_assign[OF h, THEN conjunct2] h by (simp add: r)
qed

text \<open>
  C9: constructed from a null raw pointer, a \<open>shared_ptr\<close> gets a new use count set to
  1: its boolean conversion is false, \<open>use_count()\<close> returns 1 and \<open>unique()\<close> true.
\<close>

theorem null_pointer_construct:
  "cells (shared_ptr_from \<sigma> v None c) c = Some 1 \<and>
   m_use_count (insts (shared_ptr_from \<sigma> v None c) v) = Some c \<and>
   operator_bool (shared_ptr_from \<sigma> v None c) v = False \<and>
   use_count (shared_ptr_from \<sigma> v None c) v = Inr 1 \<and>
   unique (shared_ptr_from \<sigma> v None c) v = Inr True"
  by (simp add: shared_ptr_from_def operator_bool_def use_count_def unique_def)

text \<open>
  C10: copying from an empty \<open>shared_ptr\<close> (no object, no use count). The copy
  constructor returns what the default constructor builds. The copy assignment, in any
  state a client program reaches, releases what the destination held and returns what
  the default constructor builds on it. In both the destination reports a use count of
  0 and converts to false, and no use count was written after the release.
\<close>

theorem copy_from_empty:
  assumes "run init xs = Inr \<sigma>" "v \<in> live \<sigma>"
    "insts \<sigma> w = \<lparr>m_object = None, m_use_count = None\<rparr>"
  shows "shared_ptr_copy \<sigma> d w = Inr (shared_ptr_default \<sigma> d) \<and>
         use_count (shared_ptr_default \<sigma> d) d = Inr 0 \<and>
         \<not> operator_bool (shared_ptr_default \<sigma> d) d \<and>
         cells (shared_ptr_default \<sigma> d) = cells \<sigma> \<and>
         (\<exists>\<sigma>1. decrement_use_count \<sigma> v = Inr \<sigma>1 \<and>
               copy_assign \<sigma> v w = Inr (shared_ptr_default \<sigma>1 v) \<and>
               use_count (shared_ptr_default \<sigma>1 v) v = Inr 0 \<and>
               \<not> operator_bool (shared_ptr_default \<sigma>1 v) v \<and>
               cells (shared_ptr_default \<sigma>1 v) = cells \<sigma>1)"
proof -
  have wf: "well_formed \<sigma>" by (rule reachable_wf[OF assms(1)])
  obtain \<sigma>1 where s: "decrement_use_count \<sigma> v = Inr \<sigma>1"
    using destructor_wf[OF wf assms(2)] by blast
  have "insts \<sigma>1 w = \<lparr>m_object = None, m_use_count = None\<rparr>"
    using decrement_insts[OF s] assms(3) by simp
  then have "copy_assign \<sigma> v w = Inr (shared_ptr_default \<sigma>1 v)"
    using s copy_of_empty[of \<sigma>1 w v] by (simp add: copy_assign_eq)
  then show ?thesis
    using s copy_of_empty[OF assms(3), of d] default_observed[of \<sigma> d] default_observed[of \<sigma>1 v]
    by blast
qed

theorem copy_from_empty_witness:
  "run init [ConstructFrom 0 (Some 0) 0] = Inr sole_owner \<and> 0 \<in> live sole_owner \<and>
   insts sole_owner 1 = \<lparr>m_object = None, m_use_count = None\<rparr> \<and>
   shared_ptr_copy sole_owner 2 1 = Inr (shared_ptr_default sole_owner 2) \<and>
   use_count (shared_ptr_default sole_owner 2) 2 = Inr 0 \<and>
   \<not> operator_bool (shared_ptr_default sole_owner 2) 2 \<and>
   (\<exists>\<sigma>1. decrement_use_count sole_owner 0 = Inr \<sigma>1 \<and>
         copy_assign sole_owner 0 1 = Inr (shared_ptr_default \<sigma>1 0) \<and>
         use_count (shared_ptr_default \<sigma>1 0) 0 = Inr 0 \<and>
         \<not> operator_bool (shared_ptr_default \<sigma>1 0) 0)"
proof -
  have h: "0 \<in> live sole_owner" "insts sole_owner 1 = \<lparr>m_object = None, m_use_count = None\<rparr>"
    by (simp_all add: sole_owner_def)
  show ?thesis
    using copy_from_empty[OF run_sole_owner h, of 2] run_sole_owner h by blast
qed

end
